theory Spec2Isabelle
  imports Main
begin

section \<open>Message reconciliation of the chat interface\<close>

text \<open>
  The development embeds the \<^verbatim>\<open>processedMessages\<close> computation of
  \<^verbatim>\<open>ui/src/app/components/ChatInterface/ChatInterface.tsx\<close> (the operation the
  specification calls \<^verbatim>\<open>reconcile\<close>): a single pass over the message list that
  groups every human and assistant message with its tool calls in an insertion-ordered
  \<^verbatim>\<open>Map\<close>, folds tool results into the tool call they reference, and finally
  derives the avatar flag of each turn.
\<close>

subsection \<open>JavaScript values\<close>

text \<open>
  The tool-call payloads are typed \<^verbatim>\<open>any\<close> in the source, so they are modelled
  as JSON-like values. Numbers are restricted to integers (a JSON payload has no NaN);
  an object is an association list read with \<^const>\<open>map_of\<close>.
\<close>

datatype jsval =
    JUndefined
  | JNull
  | JBool bool
  | JNum int
  | JStr string
  | JArr "jsval list"
  | JObj "(string \<times> jsval) list"

datatype error = TypeError

text \<open>JavaScript truthiness, as used by \<^verbatim>\<open>||\<close>, \<^verbatim>\<open>&&\<close> and \<^verbatim>\<open>!\<close>.\<close>

fun truthy :: "jsval \<Rightarrow> bool" where
  "truthy JUndefined = False"
| "truthy JNull = False"
| "truthy (JBool b) = b"
| "truthy (JNum n) = (n \<noteq> 0)"
| "truthy (JStr s) = (s \<noteq> [])"
| "truthy (JArr xs) = True"
| "truthy (JObj kvs) = True"

text \<open>A property read throws a TypeError exactly on \<^verbatim>\<open>null\<close> and \<^verbatim>\<open>undefined\<close>.\<close>

fun nullish :: "jsval \<Rightarrow> bool" where
  "nullish JUndefined = True"
| "nullish JNull = True"
| "nullish v = False"

text \<open>
  \<^verbatim>\<open>v.k\<close> on a value that is not nullish: an own property of an object, and
  \<^verbatim>\<open>undefined\<close> otherwise (none of the property names the source reads is a
  built-in property of a string, number, boolean or array).
\<close>

fun getProp :: "jsval \<Rightarrow> string \<Rightarrow> jsval" where
  "getProp (JObj kvs) k = (case map_of kvs k of None \<Rightarrow> JUndefined | Some v \<Rightarrow> v)"
| "getProp v k = JUndefined"

text \<open>\<^verbatim>\<open>v?.k\<close>: \<^verbatim>\<open>undefined\<close> on a nullish value, never an error.\<close>

definition optProp :: "jsval \<Rightarrow> string \<Rightarrow> jsval" where
  "optProp v k = (if nullish v then JUndefined else getProp v k)"

text \<open>\<^verbatim>\<open>a || b\<close>.\<close>

definition jsOr :: "jsval \<Rightarrow> jsval \<Rightarrow> jsval" where
  "jsOr a b = (if truthy a then a else b)"

fun isArray :: "jsval \<Rightarrow> bool" where
  "isArray (JArr xs) = True"
| "isArray v = False"

fun arrayItems :: "jsval \<Rightarrow> jsval list" where
  "arrayItems (JArr xs) = xs"
| "arrayItems v = []"

text \<open>
  \<^verbatim>\<open>a === b\<close>. Primitives compare by value; two objects or arrays read from
  different messages are different references, hence never strictly equal.
\<close>

fun strict_eq :: "jsval \<Rightarrow> jsval \<Rightarrow> bool" where
  "strict_eq JUndefined JUndefined = True"
| "strict_eq JNull JNull = True"
| "strict_eq (JBool a) (JBool b) = (a = b)"
| "strict_eq (JNum a) (JNum b) = (a = b)"
| "strict_eq (JStr a) (JStr b) = (a = b)"
| "strict_eq a b = False"

subsection \<open>Messages, tool calls and turns\<close>

text \<open>
  A \<^verbatim>\<open>Message\<close> of the LangGraph SDK. \<^verbatim>\<open>type\<close> is the discriminator
  (\<^verbatim>\<open>"ai"\<close>, \<^verbatim>\<open>"tool"\<close>, \<^verbatim>\<open>"human"\<close>, or another string); \<^verbatim>\<open>id\<close> is optional;
  a field a message does not carry is \<^const>\<open>JUndefined\<close>.
\<close>

record message =
  msg_type :: string
  msg_id :: "string option"
  content :: jsval
  additional_kwargs :: jsval
  tool_calls :: jsval
  tool_call_id :: jsval

datatype status = Pending | Completed

record ToolCall =
  tc_id :: jsval
  tc_name :: jsval
  tc_args :: jsval
  tc_status :: status
  tc_result :: "string option"

text \<open>A value of \<^verbatim>\<open>messageMap\<close>, and the element of the returned array.\<close>

record entry =
  message :: message
  toolCalls :: "ToolCall list"

record turn = entry +
  showAvatar :: bool

subsection \<open>The insertion-ordered map\<close>

text \<open>
  \<^verbatim>\<open>Map.prototype.set\<close>: a key already present keeps its position and gets the new
  value; a new key is appended.
\<close>

fun mapSet :: "('k \<times> 'v) list \<Rightarrow> 'k \<Rightarrow> 'v \<Rightarrow> ('k \<times> 'v) list" where
  "mapSet [] k v = [(k, v)]"
| "mapSet ((k', v') # kvs) k v =
     (if k' = k then (k, v) # kvs else (k', v') # mapSet kvs k v)"

subsection \<open>Extraction of the tool calls of an assistant message\<close>

text \<open>
  \<^verbatim>\<open>xs.filter(p)\<close> where \<^verbatim>\<open>p\<close> reads a property of the element: a nullish element
  throws.
\<close>

definition filterByProp :: "(jsval \<Rightarrow> bool) \<Rightarrow> jsval list \<Rightarrow> error + jsval list" where
  "filterByProp p xs = (if list_ex nullish xs then Inl TypeError else Inr (filter p xs))"

definition toolCallsInMessage :: "message \<Rightarrow> error + jsval list" where
  "toolCallsInMessage m =
     (if truthy (optProp (additional_kwargs m) ''tool_calls'')
         \<and> isArray (optProp (additional_kwargs m) ''tool_calls'')
      then Inr (arrayItems (optProp (additional_kwargs m) ''tool_calls''))
      else if truthy (tool_calls m) \<and> isArray (tool_calls m)
      then filterByProp (\<lambda>toolCall. getProp toolCall ''name'' \<noteq> JStr '''')
             (arrayItems (tool_calls m))
      else if isArray (content m)
      then filterByProp (\<lambda>block. getProp block ''type'' = JStr ''tool_use'')
             (arrayItems (content m))
      else Inr [])"

text \<open>
  The callback of \<^verbatim>\<open>toolCallsInMessage.map\<close>. The draws of \<^verbatim>\<open>Math.random()\<close> are an
  input: \<open>rnd k\<close> is the decimal rendering of draw number \<open>k\<close>, and the counter of draws
  made so far is threaded through. A draw happens only for a tool call without a truthy id.
\<close>

definition toolCallWithStatus ::
  "(nat \<Rightarrow> string) \<Rightarrow> nat \<Rightarrow> jsval \<Rightarrow> error + (nat \<times> ToolCall)" where
  "toolCallWithStatus rnd k toolCall =
     (if nullish toolCall then Inl TypeError
      else
        let name = jsOr (optProp (getProp toolCall ''function'') ''name'')
                     (jsOr (getProp toolCall ''name'')
                        (jsOr (getProp toolCall ''type'') (JStr ''unknown'')));
            args = jsOr (optProp (getProp toolCall ''function'') ''arguments'')
                     (jsOr (getProp toolCall ''args'')
                        (jsOr (getProp toolCall ''input'') (JObj [])))
        in if truthy (getProp toolCall ''id'')
           then Inr (k, \<lparr>tc_id = getProp toolCall ''id'', tc_name = name, tc_args = args,
                         tc_status = Pending, tc_result = None\<rparr>)
           else Inr (Suc k, \<lparr>tc_id = JStr (''tool-'' @ rnd k), tc_name = name,
                             tc_args = args, tc_status = Pending, tc_result = None\<rparr>))"

fun mapToolCalls ::
  "(nat \<Rightarrow> string) \<Rightarrow> nat \<Rightarrow> jsval list \<Rightarrow> error + (nat \<times> ToolCall list)" where
  "mapToolCalls rnd k [] = Inr (k, [])"
| "mapToolCalls rnd k (toolCall # rest) =
     (case toolCallWithStatus rnd k toolCall of
        Inl e \<Rightarrow> Inl e
      | Inr (k', tc) \<Rightarrow>
          (case mapToolCalls rnd k' rest of
             Inl e \<Rightarrow> Inl e
           | Inr (k'', tcs) \<Rightarrow> Inr (k'', tc # tcs)))"

subsection \<open>Folding a tool result into the map\<close>

text \<open>\<^verbatim>\<open>Array.prototype.findIndex\<close>; \<^const>\<open>None\<close> stands for \<^verbatim>\<open>-1\<close>.\<close>

fun findIndex :: "('a \<Rightarrow> bool) \<Rightarrow> 'a list \<Rightarrow> nat option" where
  "findIndex p [] = None"
| "findIndex p (x # xs) =
     (if p x then Some 0 else map_option Suc (findIndex p xs))"

text \<open>
  The loop over \<^verbatim>\<open>messageMap.entries()\<close>: the first entry holding a tool call with the
  referenced id has that tool call replaced, and the loop breaks.
\<close>

fun foldToolResult ::
  "jsval \<Rightarrow> string \<Rightarrow> ('k \<times> entry) list \<Rightarrow> ('k \<times> entry) list" where
  "foldToolResult toolCallId res [] = []"
| "foldToolResult toolCallId res ((k, data) # rest) =
     (case findIndex (\<lambda>tc. strict_eq (tc_id tc) toolCallId) (toolCalls data) of
        None \<Rightarrow> (k, data) # foldToolResult toolCallId res rest
      | Some toolCallIndex \<Rightarrow>
          (k, data\<lparr>toolCalls := (toolCalls data)
                 [toolCallIndex := (toolCalls data ! toolCallIndex)
                    \<lparr>tc_status := Completed, tc_result := Some res\<rparr>]\<rparr>) # rest)"

subsection \<open>The pass over the messages\<close>

text \<open>
  The state of the pass is the number of random draws made and the map. The helper
  \<^verbatim>\<open>extractStringFromMessageContent\<close> lives in a module that is not part of the
  sources at hand; it is the parameter \<open>ex\<close>.
\<close>

type_synonym messageMap = "(string option \<times> entry) list"

definition processMessage ::
  "(nat \<Rightarrow> string) \<Rightarrow> (message \<Rightarrow> string) \<Rightarrow> nat \<times> messageMap \<Rightarrow> message
     \<Rightarrow> error + (nat \<times> messageMap)" where
  "processMessage rnd ex st m =
     (if msg_type m = ''ai'' then
        (case toolCallsInMessage m of
           Inl e \<Rightarrow> Inl e
         | Inr toolCallsInMsg \<Rightarrow>
             (case mapToolCalls rnd (fst st) toolCallsInMsg of
                Inl e \<Rightarrow> Inl e
              | Inr (k', toolCallsWithStatus) \<Rightarrow>
                  Inr (k', mapSet (snd st) (msg_id m)
                             \<lparr>message = m, toolCalls = toolCallsWithStatus\<rparr>)))
      else if msg_type m = ''tool'' then
        (if \<not> truthy (tool_call_id m) then Inr st
         else Inr (fst st, foldToolResult (tool_call_id m) (ex m) (snd st)))
      else if msg_type m = ''human'' then
        Inr (fst st, mapSet (snd st) (msg_id m) \<lparr>message = m, toolCalls = []\<rparr>)
      else Inr st)"

fun forEachMessage ::
  "(nat \<Rightarrow> string) \<Rightarrow> (message \<Rightarrow> string) \<Rightarrow> nat \<times> messageMap \<Rightarrow> message list
     \<Rightarrow> error + (nat \<times> messageMap)" where
  "forEachMessage rnd ex st [] = Inr st"
| "forEachMessage rnd ex st (m # ms) =
     (case processMessage rnd ex st m of
        Inl e \<Rightarrow> Inl e
      | Inr st' \<Rightarrow> forEachMessage rnd ex st' ms)"

text \<open>The final \<^verbatim>\<open>processedArray.map((data, index) => ...)\<close>.\<close>

definition withShowAvatar :: "entry list \<Rightarrow> turn list" where
  "withShowAvatar processedArray =
     map (\<lambda>index.
            let data = processedArray ! index;
                prevType = (if index > 0
                            then Some (msg_type (message (processedArray ! (index - 1))))
                            else None)
            in \<lparr>message = message data, toolCalls = toolCalls data,
                showAvatar = (Some (msg_type (message data)) \<noteq> prevType)\<rparr>)
         [0 ..< length processedArray]"

definition processedMessages ::
  "(nat \<Rightarrow> string) \<Rightarrow> (message \<Rightarrow> string) \<Rightarrow> message list \<Rightarrow> error + turn list" where
  "processedMessages rnd ex messages =
     (case forEachMessage rnd ex (0, []) messages of
        Inl e \<Rightarrow> Inl e
      | Inr st \<Rightarrow> Inr (withShowAvatar (map snd (snd st))))"

subsection \<open>Notions used to state the properties\<close>

text \<open>
  The fallback chains of the normalisation, worded as in the specification: the first
  defined (truthy) candidate, else the default. The explicit name is the name of the nested
  function-call shape or else the flat \<^verbatim>\<open>name\<close> field; the structured arguments are
  those of the nested function-call shape or else the \<^verbatim>\<open>args\<close> field.
\<close>

fun firstTruthy :: "jsval list \<Rightarrow> jsval \<Rightarrow> jsval" where
  "firstTruthy [] dflt = dflt"
| "firstTruthy (v # vs) dflt = (if truthy v then v else firstTruthy vs dflt)"

definition fallbackName :: "jsval \<Rightarrow> jsval" where
  "fallbackName raw =
     firstTruthy [optProp (getProp raw ''function'') ''name'', getProp raw ''name'',
                  getProp raw ''type''] (JStr ''unknown'')"

definition fallbackArgs :: "jsval \<Rightarrow> jsval" where
  "fallbackArgs raw =
     firstTruthy [optProp (getProp raw ''function'') ''arguments'', getProp raw ''args'',
                  getProp raw ''input''] (JObj [])"

text \<open>The tool invocations an assistant message carries (none for any other message).\<close>

definition invocationsOf :: "message \<Rightarrow> jsval list" where
  "invocationsOf m =
     (if msg_type m = ''ai''
      then (case toolCallsInMessage m of Inl e \<Rightarrow> [] | Inr raws \<Rightarrow> raws)
      else [])"

text \<open>The elements of the three arrays in which an assistant message may list tool calls.\<close>

definition listedItems :: "message \<Rightarrow> jsval list" where
  "listedItems m =
     arrayItems (optProp (additional_kwargs m) ''tool_calls'')
       @ arrayItems (tool_calls m) @ arrayItems (content m)"

text \<open>A message that becomes a turn: the map is keyed by the ids of these.\<close>

definition rendersTurn :: "message \<Rightarrow> bool" where
  "rendersTurn m \<longleftrightarrow> msg_type m = ''ai'' \<or> msg_type m = ''human''"

text \<open>
  How the map may change while further messages are processed. A tool call keeps its id,
  name and arguments, and a completed one stays completed; a tool call whose id is
  protected by \<open>K\<close> does not change at all. An entry keeps its key and its message, and
  the map keeps its entries in place and may get new ones at the end.
\<close>

definition callStep :: "(jsval \<Rightarrow> bool) \<Rightarrow> ToolCall \<Rightarrow> ToolCall \<Rightarrow> bool" where
  "callStep K a b \<longleftrightarrow>
     tc_id b = tc_id a \<and> tc_name b = tc_name a \<and> tc_args b = tc_args a
     \<and> (tc_status a = Completed \<longrightarrow> tc_status b = Completed)
     \<and> (K (tc_id a) \<longrightarrow> b = a)"

definition entryStep :: "(jsval \<Rightarrow> bool) \<Rightarrow> 'k \<times> entry \<Rightarrow> 'k \<times> entry \<Rightarrow> bool" where
  "entryStep K e e' \<longleftrightarrow>
     fst e' = fst e \<and> message (snd e') = message (snd e)
     \<and> list_all2 (callStep K) (toolCalls (snd e)) (toolCalls (snd e'))"

definition grows :: "(jsval \<Rightarrow> bool) \<Rightarrow> ('k \<times> entry) list \<Rightarrow> ('k \<times> entry) list \<Rightarrow> bool" where
  "grows K es es' \<longleftrightarrow>
     length es \<le> length es' \<and> (\<forall>i<length es. entryStep K (es ! i) (es' ! i))"

text \<open>
  The position (turn index, tool-call index) of the first tool call, in insertion order of
  the turns, whose id is strictly equal to a reference.
\<close>

fun firstMatch :: "jsval \<Rightarrow> ToolCall list list \<Rightarrow> (nat \<times> nat) option" where
  "firstMatch ref [] = None"
| "firstMatch ref (tcs # rest) =
     (case findIndex (\<lambda>tc. strict_eq (tc_id tc) ref) tcs of
        Some j \<Rightarrow> Some (0, j)
      | None \<Rightarrow> map_option (\<lambda>(i, j). (Suc i, j)) (firstMatch ref rest))"

subsection \<open>Sample conversations\<close>

text \<open>
  Concrete inputs on which the theorems below are exercised: a human message, an assistant
  message requesting the tool call \<^verbatim>\<open>t1\<close> in the flat shape, its tool result, a tool
  result referencing an unknown call, and a tool result without a reference.
\<close>

definition humanMsg :: "string \<Rightarrow> string \<Rightarrow> message" where
  "humanMsg i txt =
     \<lparr>msg_type = ''human'', msg_id = Some i, content = JStr txt,
      additional_kwargs = JUndefined, tool_calls = JUndefined, tool_call_id = JUndefined\<rparr>"

definition aiMsg :: "string \<Rightarrow> jsval \<Rightarrow> jsval \<Rightarrow> jsval \<Rightarrow> message" where
  "aiMsg i kwargs flat cont =
     \<lparr>msg_type = ''ai'', msg_id = Some i, content = cont,
      additional_kwargs = kwargs, tool_calls = flat, tool_call_id = JUndefined\<rparr>"

definition toolMsg :: "string \<Rightarrow> jsval \<Rightarrow> string \<Rightarrow> message" where
  "toolMsg i ref txt =
     \<lparr>msg_type = ''tool'', msg_id = Some i, content = JStr txt,
      additional_kwargs = JUndefined, tool_calls = JUndefined, tool_call_id = ref\<rparr>"

definition searchCall :: jsval where
  "searchCall = JObj [(''id'', JStr ''t1''), (''name'', JStr ''search''),
                      (''args'', JObj [(''q'', JStr ''x'')])]"

definition msg1 :: message where
  "msg1 = humanMsg ''1'' ''hi''"

definition msg2 :: message where
  "msg2 = aiMsg ''2'' JUndefined (JArr [searchCall]) (JStr [])"

definition msg3 :: message where
  "msg3 = toolMsg ''3'' (JStr ''t1'') ''result-x''"

definition msg4 :: message where
  "msg4 = toolMsg ''4'' (JStr ''t-nonexistent'') ''ignored''"

definition msg5 :: message where
  "msg5 = toolMsg ''5'' JNull ''lost''"

definition msg6 :: message where
  "msg6 = humanMsg ''6'' ''thanks''"

text \<open>A sample of \<^verbatim>\<open>extractStringFromMessageContent\<close>: the content when it is text.\<close>

definition textOf :: "message \<Rightarrow> string" where
  "textOf m = (case content m of JStr s \<Rightarrow> s | _ \<Rightarrow> [])"

text \<open>Two sequences of random draws.\<close>

definition drawsA :: "nat \<Rightarrow> string" where
  "drawsA k = ''0.25''"

definition drawsB :: "nat \<Rightarrow> string" where
  "drawsB k = ''0.75''"

text \<open>Further sample messages: the three encodings of a tool call, and anomalies.\<close>

definition nestedCall :: jsval where
  "nestedCall = JObj [(''id'', JStr ''n1''), (''type'', JStr ''function''),
     (''function'', JObj [(''name'', JStr ''lookup''), (''arguments'', JStr ''{}'')])]"

definition useBlock :: jsval where
  "useBlock = JObj [(''type'', JStr ''tool_use''), (''id'', JStr ''b1''),
     (''name'', JStr ''fetch''), (''input'', JObj [(''url'', JStr ''u'')])]"

definition textBlock :: jsval where
  "textBlock = JObj [(''type'', JStr ''text''), (''text'', JStr ''hello'')]"

definition unnamedCall :: jsval where
  "unnamedCall = JObj [(''id'', JStr ''e1''), (''name'', JStr [])]"

definition bareCall :: jsval where
  "bareCall = JObj [(''id'', JStr ''x1'')]"

definition anonymousCall :: jsval where
  "anonymousCall = JObj [(''name'', JStr ''search'')]"

definition msgNested :: message where
  "msgNested = aiMsg ''7'' (JObj [(''tool_calls'', JArr [nestedCall])])
                 (JArr [searchCall]) (JArr [textBlock, useBlock])"

definition msgFlat :: message where
  "msgFlat = aiMsg ''8'' (JObj []) (JArr [unnamedCall, searchCall])
               (JArr [textBlock, useBlock])"

definition msgBlocks :: message where
  "msgBlocks = aiMsg ''9'' JUndefined JUndefined (JArr [textBlock, useBlock])"

definition msgPlain :: message where
  "msgPlain = aiMsg ''10'' JUndefined JUndefined (JStr ''done'')"

definition msgBare :: message where
  "msgBare = aiMsg ''11'' JUndefined (JArr [bareCall]) (JStr [])"

definition msgAnonymous :: message where
  "msgAnonymous = aiMsg ''12'' JUndefined (JArr [anonymousCall]) (JStr [])"

definition msgTwice :: message where
  "msgTwice = aiMsg ''13'' JUndefined (JArr [searchCall, searchCall]) (JStr [])"

definition msgAgain :: message where
  "msgAgain = toolMsg ''15'' (JStr ''t1'') ''result-y''"

definition msgNull :: message where
  "msgNull = aiMsg ''16'' (JObj [(''tool_calls'', JArr [JNull])]) JUndefined (JStr [])"

definition msgMixed :: message where
  "msgMixed = aiMsg ''17'' JUndefined (JArr [anonymousCall, searchCall, anonymousCall])
                (JStr [])"

text \<open>Random draws that never repeat: \<^verbatim>\<open>0.1\<close>, \<^verbatim>\<open>0.11\<close>, \<^verbatim>\<open>0.111\<close>, and so on.\<close>

definition drawsC :: "nat \<Rightarrow> string" where
  "drawsC k = ''0.'' @ replicate (Suc k) (CHR ''1'')"

section \<open>Properties\<close>

subsection \<open>Auxiliary facts\<close>

lemmas pass_defs =
  processedMessages_def processMessage_def toolCallsInMessage_def optProp_def
  filterByProp_def toolCallWithStatus_def jsOr_def withShowAvatar_def Let_def

lemmas sample_defs =
  humanMsg_def aiMsg_def toolMsg_def searchCall_def msg1_def msg2_def msg3_def msg4_def
  msg5_def msg6_def textOf_def drawsA_def drawsB_def nestedCall_def useBlock_def
  textBlock_def unnamedCall_def bareCall_def anonymousCall_def msgNested_def msgFlat_def
  msgBlocks_def msgPlain_def msgBare_def msgAnonymous_def msgTwice_def
  msgAgain_def msgNull_def msgMixed_def drawsC_def

lemma forEachMessage_append:
  "forEachMessage rnd ex st (xs @ ys) =
     (case forEachMessage rnd ex st xs of
        Inl e \<Rightarrow> Inl e
      | Inr st' \<Rightarrow> forEachMessage rnd ex st' ys)"
  by (induction xs arbitrary: st) (auto split: sum.splits)

lemma mapSet_fresh: "k \<notin> fst ` set kvs \<Longrightarrow> mapSet kvs k v = kvs @ [(k, v)]"
  by (induction kvs) auto

lemma mapSet_keys:
  "map fst (mapSet kvs k v) = (if k \<in> fst ` set kvs then map fst kvs else map fst kvs @ [k])"
  by (induction kvs) (auto simp: rev_image_eqI)

lemma length_withShowAvatar: "length (withShowAvatar arr) = length arr"
  by (simp add: withShowAvatar_def)

lemma message_withShowAvatar: "map message (withShowAvatar arr) = map message arr"
  by (rule nth_equalityI) (simp_all add: withShowAvatar_def Let_def)

lemma toolCalls_withShowAvatar: "map toolCalls (withShowAvatar arr) = map toolCalls arr"
  by (rule nth_equalityI) (simp_all add: withShowAvatar_def Let_def)

lemma isArray_truthy: "isArray v \<Longrightarrow> truthy v"
  by (cases v) auto

lemma inj_drawsC: "inj drawsC"
  by (simp add: inj_def drawsC_def)

subsection \<open>Entries of the map\<close>

lemma findIndex_Some:
  "findIndex p xs = Some i \<Longrightarrow> i < length xs \<and> p (xs ! i) \<and> (\<forall>j<i. \<not> p (xs ! j))"
proof (induction xs arbitrary: i)
  case Nil
  then show ?case by simp
next
  case (Cons x xs)
  show ?case
  proof (cases "p x")
    case True
    with Cons.prems show ?thesis by simp
  next
    case False
    with Cons.prems obtain i' where i': "findIndex p xs = Some i'" "i = Suc i'"
      by auto
    from Cons.IH[OF i'(1)] False i'(2) show ?thesis
      by (auto simp: nth_Cons split: nat.splits)
  qed
qed

lemma findIndex_None: "findIndex p xs = None \<longleftrightarrow> (\<forall>x\<in>set xs. \<not> p x)"
  by (induction xs) auto

lemma set_mapSet: "set (mapSet kvs k v) \<subseteq> insert (k, v) (set kvs)"
  by (induction kvs) (auto split: if_splits)

lemma foldToolResult_cases:
  assumes "(key, d') \<in> set (foldToolResult ref res es)"
  shows "(key, d') \<in> set es
         \<or> (\<exists>d i. (key, d) \<in> set es \<and> i < length (toolCalls d)
               \<and> d' = d\<lparr>toolCalls := (toolCalls d)
                         [i := (toolCalls d ! i)\<lparr>tc_status := Completed,
                                                 tc_result := Some res\<rparr>]\<rparr>)"
  using assms
proof (induction es)
  case Nil
  then show ?case by simp
next
  case (Cons e es)
  obtain k0 d0 where e: "e = (k0, d0)" by (cases e)
  show ?case
  proof (cases "findIndex (\<lambda>tc. strict_eq (tc_id tc) ref) (toolCalls d0)")
    case None
    with Cons e show ?thesis by auto
  next
    case (Some i)
    then have "i < length (toolCalls d0)" by (simp add: findIndex_Some)
    with Cons.prems e Some show ?thesis by auto
  qed
qed

text \<open>An invariant of the entries of the map is established by showing it for the
  entries the pass creates and preserved by the completion of one tool call.\<close>

lemma processMessage_entries:
  assumes run: "processMessage rnd ex (k, es) m = Inr (k', es')"
    and init: "\<forall>(key, d)\<in>set es. P d"
    and ai: "\<And>k raws k' tcs. msg_type m = ''ai'' \<Longrightarrow> toolCallsInMessage m = Inr raws
               \<Longrightarrow> mapToolCalls rnd k raws = Inr (k', tcs)
               \<Longrightarrow> P \<lparr>message = m, toolCalls = tcs\<rparr>"
    and human: "msg_type m = ''human'' \<Longrightarrow> P \<lparr>message = m, toolCalls = []\<rparr>"
    and upd: "\<And>d i s. P d \<Longrightarrow> i < length (toolCalls d)
               \<Longrightarrow> P (d\<lparr>toolCalls := (toolCalls d)
                          [i := (toolCalls d ! i)\<lparr>tc_status := Completed,
                                                  tc_result := Some s\<rparr>]\<rparr>)"
  shows "\<forall>(key, d)\<in>set es'. P d"
proof (cases "msg_type m = ''ai''")
  case True
  with run obtain raws tcs where r: "toolCallsInMessage m = Inr raws"
      "mapToolCalls rnd k raws = Inr (k', tcs)"
      "es' = mapSet es (msg_id m) \<lparr>message = m, toolCalls = tcs\<rparr>"
    by (auto simp: processMessage_def split: sum.splits)
  from ai[OF True r(1,2)] init set_mapSet[of es "msg_id m" "\<lparr>message = m, toolCalls = tcs\<rparr>"]
  show ?thesis unfolding r(3) by auto
next
  case notai: False
  show ?thesis
  proof (cases "msg_type m = ''tool''")
    case True
    show ?thesis
    proof (cases "truthy (tool_call_id m)")
      case False
      with run notai True init show ?thesis by (simp add: processMessage_def)
    next
      case t: True
      with run notai True have es': "es' = foldToolResult (tool_call_id m) (ex m) es"
        by (simp add: processMessage_def)
      show ?thesis
      proof (clarify)
        fix key d' assume "(key, d') \<in> set es'"
        from foldToolResult_cases[OF this[unfolded es']] init upd
        show "P d'" by auto
      qed
    qed
  next
    case nottool: False
    show ?thesis
    proof (cases "msg_type m = ''human''")
      case True
      with run notai nottool
      have "es' = mapSet es (msg_id m) \<lparr>message = m, toolCalls = []\<rparr>"
        by (simp add: processMessage_def)
      with human[OF True] init set_mapSet[of es "msg_id m" "\<lparr>message = m, toolCalls = []\<rparr>"]
      show ?thesis by auto
    next
      case False
      with run notai nottool init show ?thesis by (simp add: processMessage_def)
    qed
  qed
qed

lemma forEachMessage_entries:
  assumes run: "forEachMessage rnd ex (k, es) M = Inr (k', es')"
    and init: "\<forall>(key, d)\<in>set es. P d"
    and ai: "\<And>m k raws k' tcs. m \<in> set M \<Longrightarrow> msg_type m = ''ai''
               \<Longrightarrow> toolCallsInMessage m = Inr raws
               \<Longrightarrow> mapToolCalls rnd k raws = Inr (k', tcs)
               \<Longrightarrow> P \<lparr>message = m, toolCalls = tcs\<rparr>"
    and human: "\<And>m. m \<in> set M \<Longrightarrow> msg_type m = ''human''
               \<Longrightarrow> P \<lparr>message = m, toolCalls = []\<rparr>"
    and upd: "\<And>d i s. P d \<Longrightarrow> i < length (toolCalls d)
               \<Longrightarrow> P (d\<lparr>toolCalls := (toolCalls d)
                          [i := (toolCalls d ! i)\<lparr>tc_status := Completed,
                                                  tc_result := Some s\<rparr>]\<rparr>)"
  shows "\<forall>(key, d)\<in>set es'. P d"
  using run init ai human
proof (induction M arbitrary: k es)
  case Nil
  then show ?case by simp
next
  case (Cons m M)
  from Cons.prems(1) obtain k1 es1 where
    step: "processMessage rnd ex (k, es) m = Inr (k1, es1)"
    and rest: "forEachMessage rnd ex (k1, es1) M = Inr (k', es')"
    by (auto split: sum.splits)
  have "\<forall>(key, d)\<in>set es1. P d"
    by (rule processMessage_entries[OF step Cons.prems(2)])
       (auto intro: Cons.prems(3,4) upd)
  from Cons.IH[OF rest this] Cons.prems(3,4) show ?case by auto
qed

lemma output_entries:
  assumes "processedMessages rnd ex M = Inr out" and "t \<in> set out"
  obtains k es key d where "forEachMessage rnd ex (0, []) M = Inr (k, es)"
    and "(key, d) \<in> set es" and "message t = message d" and "toolCalls t = toolCalls d"
proof -
  from assms(1) obtain k and es :: messageMap where
    run: "forEachMessage rnd ex (0, []) M = Inr (k, es)"
    and out: "out = withShowAvatar (map snd es)"
    by (cases "forEachMessage rnd ex (0, []) M") (auto simp: processedMessages_def)
  from assms(2) obtain i where i: "i < length es" "t = withShowAvatar (map snd es) ! i"
    unfolding out by (auto simp: in_set_conv_nth length_withShowAvatar)
  then have "message t = message (snd (es ! i))" "toolCalls t = toolCalls (snd (es ! i))"
    by (simp_all add: withShowAvatar_def Let_def)
  moreover have "(fst (es ! i), snd (es ! i)) \<in> set es"
    using i(1) by simp
  ultimately show thesis using that run by blast
qed

subsection \<open>Normalisation of tool calls\<close>

lemma truthy_firstTruthy: "truthy dflt \<Longrightarrow> truthy (firstTruthy vs dflt)"
  by (induction vs) auto

lemma truthy_fallbackName: "truthy (fallbackName raw)"
  by (simp add: fallbackName_def truthy_firstTruthy del: firstTruthy.simps)

lemma truthy_fallbackArgs: "truthy (fallbackArgs raw)"
  by (simp add: fallbackArgs_def truthy_firstTruthy del: firstTruthy.simps)

lemma toolCallWithStatus_Inr:
  assumes "toolCallWithStatus rnd k raw = Inr (k', tc)"
  shows "tc_name tc = fallbackName raw \<and> tc_args tc = fallbackArgs raw
         \<and> tc_status tc = Pending \<and> tc_result tc = None
         \<and> tc_id tc = (if truthy (getProp raw ''id'') then getProp raw ''id''
                        else JStr (''tool-'' @ rnd k))
         \<and> k' = (if truthy (getProp raw ''id'') then k else Suc k)"
  using assms
  by (auto simp: toolCallWithStatus_def fallbackName_def fallbackArgs_def jsOr_def Let_def
           split: if_splits)

lemma toolCallWithStatus_total:
  "\<not> nullish raw \<Longrightarrow> \<exists>k' tc. toolCallWithStatus rnd k raw = Inr (k', tc)"
  by (simp add: toolCallWithStatus_def Let_def)

lemma mapToolCalls_total:
  "\<forall>raw\<in>set raws. \<not> nullish raw \<Longrightarrow> \<exists>k' tcs. mapToolCalls rnd k raws = Inr (k', tcs)"
proof (induction raws arbitrary: k)
  case Nil
  then show ?case by simp
next
  case (Cons raw raws)
  then obtain k1 tc where h: "toolCallWithStatus rnd k raw = Inr (k1, tc)"
    using toolCallWithStatus_total[of raw rnd k] by auto
  from Cons obtain k2 tcs where "mapToolCalls rnd k1 raws = Inr (k2, tcs)"
    by fastforce
  with h show ?case by simp
qed

lemma mapToolCalls_Inr:
  assumes "mapToolCalls rnd k raws = Inr (k', tcs)"
  shows "list_all2 (\<lambda>raw tc. \<exists>j j'. toolCallWithStatus rnd j raw = Inr (j', tc)) raws tcs"
  using assms
proof (induction raws arbitrary: k tcs)
  case Nil
  then show ?case by simp
next
  case (Cons raw raws)
  from Cons.prems obtain k1 tc ts where
    h: "toolCallWithStatus rnd k raw = Inr (k1, tc)"
    and r: "mapToolCalls rnd k1 raws = Inr (k', ts)" and t: "tcs = tc # ts"
    by (auto split: sum.splits)
  from Cons.IH[OF r] h t show ?case by auto
qed

lemma toolCallsInMessage_total:
  assumes "\<forall>x\<in>set (listedItems m). \<not> nullish x"
  shows "\<exists>raws. toolCallsInMessage m = Inr raws \<and> (\<forall>raw\<in>set raws. \<not> nullish raw)"
proof -
  have ex: "\<not> list_ex nullish (arrayItems (tool_calls m))"
       "\<not> list_ex nullish (arrayItems (content m))"
    using assms by (auto simp: listedItems_def list_ex_iff)
  then show ?thesis
    using assms
    by (auto simp: toolCallsInMessage_def filterByProp_def listedItems_def)
qed

lemma processMessage_total:
  assumes "msg_type m = ''ai'' \<longrightarrow> (\<forall>x\<in>set (listedItems m). \<not> nullish x)"
  shows "\<exists>st'. processMessage rnd ex st m = Inr st'"
proof (cases "msg_type m = ''ai''")
  case True
  with assms obtain raws where r: "toolCallsInMessage m = Inr raws"
      "\<forall>raw\<in>set raws. \<not> nullish raw"
    using toolCallsInMessage_total[of m] by auto
  from mapToolCalls_total[OF r(2), of rnd "fst st"] r(1) True show ?thesis
    by (auto simp: processMessage_def)
next
  case False
  then show ?thesis by (simp add: processMessage_def)
qed

lemma forEachMessage_total:
  assumes "\<forall>m\<in>set M. msg_type m = ''ai'' \<longrightarrow> (\<forall>x\<in>set (listedItems m). \<not> nullish x)"
  shows "\<exists>st'. forEachMessage rnd ex st M = Inr st'"
  using assms
proof (induction M arbitrary: st)
  case Nil
  then show ?case by simp
next
  case (Cons m M)
  then obtain st1 where "processMessage rnd ex st m = Inr st1"
    using processMessage_total[of m rnd ex st] by auto
  with Cons show ?case by simp
qed

lemma list_all2_completed:
  assumes "list_all2 R xs ys" and "i < length ys"
    and "\<And>x y. R x y \<Longrightarrow> R x (y\<lparr>tc_status := Completed, tc_result := Some s\<rparr>)"
  shows "list_all2 R xs (ys[i := (ys ! i)\<lparr>tc_status := Completed, tc_result := Some s\<rparr>])"
  using assms by (auto simp: list_all2_conv_all_nth nth_list_update)

lemma invocationsOf_ai:
  "msg_type m = ''ai'' \<Longrightarrow> toolCallsInMessage m = Inr raws \<Longrightarrow> invocationsOf m = raws"
  by (simp add: invocationsOf_def)

lemma map_tc_id_completed:
  "i < length xs \<Longrightarrow>
   map tc_id (xs[i := (xs ! i)\<lparr>tc_status := Completed, tc_result := Some s\<rparr>]) = map tc_id xs"
  by (simp add: map_update list_update_same_conv)

subsection \<open>First match and growth of the map\<close>

lemma strict_eq_eq: "strict_eq a b \<Longrightarrow> a = b"
  by (cases a; cases b) auto

lemma findIndex_iff:
  "findIndex p xs = Some i \<longleftrightarrow> i < length xs \<and> p (xs ! i) \<and> (\<forall>j<i. \<not> p (xs ! j))"
proof
  assume "findIndex p xs = Some i"
  then show "i < length xs \<and> p (xs ! i) \<and> (\<forall>j<i. \<not> p (xs ! j))"
    by (rule findIndex_Some)
next
  assume r: "i < length xs \<and> p (xs ! i) \<and> (\<forall>j<i. \<not> p (xs ! j))"
  show "findIndex p xs = Some i"
  proof (cases "findIndex p xs")
    case None
    with r show ?thesis by (auto simp: findIndex_None)
  next
    case (Some i')
    from findIndex_Some[OF Some] r have "i' = i"
      by (meson linorder_neqE_nat)
    with Some show ?thesis by simp
  qed
qed

lemma firstMatch_None:
  "firstMatch ref tss = None \<longleftrightarrow> (\<forall>ts\<in>set tss. \<forall>tc\<in>set ts. \<not> strict_eq (tc_id tc) ref)"
proof (induction tss)
  case Nil
  then show ?case by simp
next
  case (Cons ts tss)
  show ?case
  proof (cases "findIndex (\<lambda>tc. strict_eq (tc_id tc) ref) ts")
    case None
    then have "firstMatch ref (ts # tss)
                 = map_option (\<lambda>(i, j). (Suc i, j)) (firstMatch ref tss)"
      by simp
    moreover from None have "\<forall>tc\<in>set ts. \<not> strict_eq (tc_id tc) ref"
      by (simp add: findIndex_None)
    ultimately show ?thesis using Cons by simp
  next
    case (Some j)
    from findIndex_Some[OF Some] have "\<exists>tc\<in>set ts. strict_eq (tc_id tc) ref"
      by (meson nth_mem)
    with Some show ?thesis by simp
  qed
qed

lemma firstMatch_Some:
  "firstMatch ref tss = Some (i, j) \<Longrightarrow>
     i < length tss \<and> j < length (tss ! i) \<and> strict_eq (tc_id (tss ! i ! j)) ref
     \<and> (\<forall>i'<i. \<forall>tc\<in>set (tss ! i'). \<not> strict_eq (tc_id tc) ref)
     \<and> (\<forall>j'<j. \<not> strict_eq (tc_id (tss ! i ! j')) ref)"
proof (induction tss arbitrary: i)
  case Nil
  then show ?case by simp
next
  case (Cons ts tss)
  show ?case
  proof (cases "findIndex (\<lambda>tc. strict_eq (tc_id tc) ref) ts")
    case (Some j0)
    with Cons.prems have "i = 0" "j = j0" by auto
    with findIndex_Some[OF Some] show ?thesis by simp
  next
    case None
    with Cons.prems obtain i0 where i0: "firstMatch ref tss = Some (i0, j)" "i = Suc i0"
      by auto
    from None have no: "\<forall>tc\<in>set ts. \<not> strict_eq (tc_id tc) ref"
      by (simp add: findIndex_None)
    from Cons.IH[OF i0(1)] no i0(2) show ?thesis
      by (auto simp: nth_Cons split: nat.splits)
  qed
qed

lemma firstMatch_iff:
  "firstMatch ref tss = Some (i, j) \<longleftrightarrow>
     i < length tss \<and> j < length (tss ! i) \<and> strict_eq (tc_id (tss ! i ! j)) ref
     \<and> (\<forall>i'<i. \<forall>tc\<in>set (tss ! i'). \<not> strict_eq (tc_id tc) ref)
     \<and> (\<forall>j'<j. \<not> strict_eq (tc_id (tss ! i ! j')) ref)"
  (is "?L \<longleftrightarrow> ?R")
proof
  assume ?L then show ?R by (rule firstMatch_Some)
next
  assume r: ?R
  show ?L
  proof (cases "firstMatch ref tss")
    case None
    with r show ?thesis
      by (auto simp: firstMatch_None) (meson nth_mem)
  next
    case (Some p)
    obtain i' j' where p: "p = (i', j')" by (cases p)
    note s = firstMatch_Some[OF Some[unfolded p]]
    have "\<not> i' < i"
    proof
      assume "i' < i"
      with r have "\<forall>tc\<in>set (tss ! i'). \<not> strict_eq (tc_id tc) ref" by blast
      moreover from s have "tss ! i' ! j' \<in> set (tss ! i')" by simp
      ultimately show False using s by blast
    qed
    moreover have "\<not> i < i'"
    proof
      assume "i < i'"
      with s have "\<forall>tc\<in>set (tss ! i). \<not> strict_eq (tc_id tc) ref" by blast
      moreover from r have "tss ! i ! j \<in> set (tss ! i)" by simp
      ultimately show False using r by blast
    qed
    ultimately have i: "i' = i" by simp
    with r s have "\<not> j' < j" "\<not> j < j'" by blast+
    with i Some p show ?thesis by simp
  qed
qed

lemma callStep_refl: "callStep K a a"
  by (simp add: callStep_def)

lemma callStep_trans: "callStep K a b \<Longrightarrow> callStep K b c \<Longrightarrow> callStep K a c"
  by (auto simp: callStep_def)

lemma entryStep_refl: "entryStep K e e"
  by (simp add: entryStep_def list_all2_refl callStep_refl)

lemma entryStep_trans: "entryStep K a b \<Longrightarrow> entryStep K b c \<Longrightarrow> entryStep K a c"
  unfolding entryStep_def
  by (auto elim: list_all2_trans[rotated] intro: callStep_trans)

lemma grows_refl: "grows K es es"
  by (simp add: grows_def entryStep_refl)

lemma grows_trans: "grows K a b \<Longrightarrow> grows K b c \<Longrightarrow> grows K a c"
  unfolding grows_def
  by (auto intro: entryStep_trans)

lemma grows_append: "grows K es (es @ new)"
  by (simp add: grows_def nth_append entryStep_refl)

lemma grows_update:
  "i < length es \<Longrightarrow> entryStep K (es ! i) e' \<Longrightarrow> grows K es (es[i := e'])"
  by (auto simp: grows_def nth_list_update entryStep_refl)

lemma callStep_completed:
  assumes "j < length tcs" and "\<not> K (tc_id (tcs ! j))"
  shows "list_all2 (callStep K) tcs
           (tcs[j := (tcs ! j)\<lparr>tc_status := Completed, tc_result := Some res\<rparr>])"
  using assms
  by (auto simp: list_all2_conv_all_nth nth_list_update callStep_def)

text \<open>The loop over the entries updates exactly the first matching tool call.\<close>

lemma foldToolResult_firstMatch:
  "foldToolResult ref res es =
     (case firstMatch ref (map (\<lambda>e. toolCalls (snd e)) es) of
        None \<Rightarrow> es
      | Some (i, j) \<Rightarrow>
          es[i := (fst (es ! i),
                   (snd (es ! i))\<lparr>toolCalls := (toolCalls (snd (es ! i)))
                      [j := (toolCalls (snd (es ! i)) ! j)
                         \<lparr>tc_status := Completed, tc_result := Some res\<rparr>]\<rparr>)])"
proof (induction es)
  case Nil
  then show ?case by simp
next
  case (Cons e es)
  obtain k d where e: "e = (k, d)" by (cases e)
  show ?case
  proof (cases "findIndex (\<lambda>tc. strict_eq (tc_id tc) ref) (toolCalls d)")
    case (Some j)
    with e show ?thesis by simp
  next
    case None
    show ?thesis
    proof (cases "firstMatch ref (map (\<lambda>e. toolCalls (snd e)) es)")
      case n: None
      with None e Cons.IH show ?thesis by simp
    next
      case (Some p)
      obtain i j where p: "p = (i, j)" by (cases p)
      with None e Cons.IH Some show ?thesis by simp
    qed
  qed
qed

lemma foldToolResult_grows:
  assumes "\<forall>v. K v \<longrightarrow> \<not> strict_eq v ref"
  shows "grows K es (foldToolResult ref res es)"
proof (cases "firstMatch ref (map (\<lambda>e. toolCalls (snd e)) es)")
  case None
  then show ?thesis by (simp add: foldToolResult_firstMatch grows_refl)
next
  case (Some p)
  obtain i j where p: "p = (i, j)" by (cases p)
  note fm = firstMatch_Some[OF Some[unfolded p]]
  from fm have i: "i < length es" by simp
  with fm have j: "j < length (toolCalls (snd (es ! i)))"
    and m: "strict_eq (tc_id (toolCalls (snd (es ! i)) ! j)) ref"
    by simp_all
  from m assms have "\<not> K (tc_id (toolCalls (snd (es ! i)) ! j))" by blast
  from callStep_completed[where K = K and res = res, OF j this]
  have "entryStep K (es ! i)
          (fst (es ! i),
           (snd (es ! i))\<lparr>toolCalls := (toolCalls (snd (es ! i)))
              [j := (toolCalls (snd (es ! i)) ! j)
                 \<lparr>tc_status := Completed, tc_result := Some res\<rparr>]\<rparr>)"
    by (simp add: entryStep_def)
  from grows_update[OF i this] Some p show ?thesis
    by (simp add: foldToolResult_firstMatch)
qed

lemma grows_keys: "grows K es es' \<Longrightarrow> length es' = length es \<Longrightarrow> map fst es' = map fst es"
  by (auto simp: grows_def entryStep_def intro!: nth_equalityI)

lemma length_foldToolResult: "length (foldToolResult ref res es) = length es"
  by (simp add: foldToolResult_firstMatch split: option.splits)

lemma keys_foldToolResult: "map fst (foldToolResult ref res es) = map fst es"
  by (rule grows_keys[where K = "\<lambda>v. False"])
     (simp_all add: foldToolResult_grows length_foldToolResult)

lemma processMessage_cases:
  assumes "processMessage rnd ex (k, es) m = Inr (k', es')"
  shows "(rendersTurn m \<and> (\<exists>v. es' = mapSet es (msg_id m) v))
         \<or> (\<not> rendersTurn m \<and> es' = es)
         \<or> (\<not> rendersTurn m \<and> msg_type m = ''tool'' \<and> truthy (tool_call_id m)
              \<and> k' = k \<and> es' = foldToolResult (tool_call_id m) (ex m) es)"
proof (cases "msg_type m = ''ai''")
  case True
  with assms show ?thesis
    by (auto simp: processMessage_def rendersTurn_def split: sum.splits)
next
  case False
  with assms show ?thesis
    by (auto simp: processMessage_def rendersTurn_def split: if_splits)
qed

lemma processMessage_keys:
  assumes "processMessage rnd ex (k, es) m = Inr (k', es')"
  shows "fst ` set es' = fst ` set es \<union> (if rendersTurn m then {msg_id m} else {})"
proof -
  have ms: "\<And>v. fst ` set (mapSet es (msg_id m) v) = insert (msg_id m) (fst ` set es)"
  proof -
    fix v
    have "set (map fst (mapSet es (msg_id m) v)) = insert (msg_id m) (set (map fst es))"
      unfolding mapSet_keys by auto
    then show "fst ` set (mapSet es (msg_id m) v) = insert (msg_id m) (fst ` set es)"
      by simp
  qed
  have ft: "\<And>r s. fst ` set (foldToolResult r s es) = fst ` set es"
    using keys_foldToolResult[of _ _ es] by (metis list.set_map)
  from processMessage_cases[OF assms] show ?thesis
    by (elim disjE conjE exE) (simp_all add: ms ft)
qed

lemma processMessage_grows:
  assumes run: "processMessage rnd ex (k, es) m = Inr (k', es')"
    and fresh: "rendersTurn m \<longrightarrow> msg_id m \<notin> fst ` set es"
    and prot: "msg_type m = ''tool'' \<longrightarrow> (\<forall>v. K v \<longrightarrow> \<not> strict_eq v (tool_call_id m))"
  shows "grows K es es'"
  using processMessage_cases[OF run] fresh prot
  by (elim disjE conjE exE)
     (simp_all add: mapSet_fresh grows_append grows_refl foldToolResult_grows)

lemma forEachMessage_keys:
  assumes "forEachMessage rnd ex (k, es) M = Inr (k', es')"
  shows "fst ` set es' = fst ` set es \<union> msg_id ` set (filter rendersTurn M)"
  using assms
proof (induction M arbitrary: k es)
  case Nil
  then show ?case by simp
next
  case (Cons m M)
  from Cons.prems obtain k1 es1 where
    step: "processMessage rnd ex (k, es) m = Inr (k1, es1)"
    and rest: "forEachMessage rnd ex (k1, es1) M = Inr (k', es')"
    by (auto split: sum.splits)
  from Cons.IH[OF rest] processMessage_keys[OF step] show ?case
    by auto
qed

lemma forEachMessage_grows:
  assumes "forEachMessage rnd ex (k, es) N = Inr (k', es')"
    and "distinct (map msg_id (filter rendersTurn N))"
    and "msg_id ` set (filter rendersTurn N) \<inter> fst ` set es = {}"
    and "\<forall>m\<in>set N. msg_type m = ''tool'' \<longrightarrow> (\<forall>v. K v \<longrightarrow> \<not> strict_eq v (tool_call_id m))"
  shows "grows K es es'"
  using assms
proof (induction N arbitrary: k es)
  case Nil
  then show ?case by (simp add: grows_refl)
next
  case (Cons m N)
  from Cons.prems(1) obtain k1 es1 where
    step: "processMessage rnd ex (k, es) m = Inr (k1, es1)"
    and rest: "forEachMessage rnd ex (k1, es1) N = Inr (k', es')"
    by (auto split: sum.splits)
  have g1: "grows K es es1"
    by (rule processMessage_grows[OF step]) (use Cons.prems in auto)
  have d: "distinct (map msg_id (filter rendersTurn N))"
    using Cons.prems(2) by (auto split: if_splits)
  have "msg_id ` set (filter rendersTurn N) \<inter> fst ` set es1 = {}"
    unfolding processMessage_keys[OF step]
    using Cons.prems(2,3) by (auto split: if_splits)
  from Cons.IH[OF rest d this] Cons.prems(4) have "grows K es1 es'" by simp
  with g1 show ?case by (rule grows_trans)
qed

lemma foldToolResult_no_match:
  assumes "\<forall>(key, d)\<in>set es. \<forall>tc\<in>set (toolCalls d). \<not> strict_eq (tc_id tc) ref"
  shows "foldToolResult ref res es = es"
proof -
  from assms have "firstMatch ref (map (\<lambda>e. toolCalls (snd e)) es) = None"
    by (auto simp: firstMatch_None)
  then show ?thesis by (simp add: foldToolResult_firstMatch)
qed

lemma mapToolCalls_ids:
  assumes "mapToolCalls rnd k raws = Inr (k', tcs)" and "tc \<in> set tcs"
  shows "(\<exists>raw\<in>set raws. tc_id tc = getProp raw ''id'') \<or> (\<exists>j. tc_id tc = JStr (''tool-'' @ rnd j))"
proof -
  from mapToolCalls_Inr[OF assms(1)] assms(2)
  obtain raw j j' where "raw \<in> set raws" "toolCallWithStatus rnd j raw = Inr (j', tc)"
    by (auto simp: list_all2_conv_all_nth in_set_conv_nth) (metis nth_mem)
  with toolCallWithStatus_Inr[OF this(2)] show ?thesis
    by (auto split: if_splits)
qed

lemma nth_withShowAvatar:
  "i < length arr \<Longrightarrow>
     message (withShowAvatar arr ! i) = message (arr ! i)
     \<and> toolCalls (withShowAvatar arr ! i) = toolCalls (arr ! i)"
  by (simp add: withShowAvatar_def Let_def)

lemma processedMessages_Inr:
  assumes "processedMessages rnd ex M = Inr out"
  obtains k and es :: messageMap where "forEachMessage rnd ex (0, []) M = Inr (k, es)"
    and "out = withShowAvatar (map snd es)" and "length out = length es"
    and "\<And>i. i < length es \<Longrightarrow> message (out ! i) = message (snd (es ! i))
                                  \<and> toolCalls (out ! i) = toolCalls (snd (es ! i))"
proof -
  from assms obtain k and es :: messageMap where
    run: "forEachMessage rnd ex (0, []) M = Inr (k, es)"
    and out: "out = withShowAvatar (map snd es)"
    by (cases "forEachMessage rnd ex (0, []) M") (auto simp: processedMessages_def)
  show thesis
    by (rule that[OF run out]) (simp_all add: out length_withShowAvatar nth_withShowAvatar)
qed

lemma forEachMessage_appended_grows:
  assumes dist: "distinct (map msg_id (filter rendersTurn (M @ N)))"
    and runM: "forEachMessage rnd ex (0, []) M = Inr (k, es)"
    and runN: "forEachMessage rnd ex (k, es) N = Inr (k', es')"
    and prot: "\<forall>m\<in>set N. msg_type m = ''tool'' \<longrightarrow> (\<forall>v. K v \<longrightarrow> \<not> strict_eq v (tool_call_id m))"
  shows "grows K es es'"
proof -
  from forEachMessage_keys[OF runM]
  have keys: "fst ` set es = msg_id ` set (filter rendersTurn M)" by simp
  from dist have d: "distinct (map msg_id (filter rendersTurn N))"
    and disj: "msg_id ` set (filter rendersTurn M) \<inter> msg_id ` set (filter rendersTurn N) = {}"
    by simp_all
  from disj keys have "msg_id ` set (filter rendersTurn N) \<inter> fst ` set es = {}"
    by (simp add: Int_commute)
  from forEachMessage_grows[OF runN d this prot] show ?thesis .
qed

lemma grows_call:
  assumes "grows K es es'" and "i < length es" and "j < length (toolCalls (snd (es ! i)))"
  shows "i < length es' \<and> fst (es' ! i) = fst (es ! i)
         \<and> message (snd (es' ! i)) = message (snd (es ! i))
         \<and> length (toolCalls (snd (es' ! i))) = length (toolCalls (snd (es ! i)))
         \<and> callStep K (toolCalls (snd (es ! i)) ! j) (toolCalls (snd (es' ! i)) ! j)"
  using assms
  by (auto simp: grows_def entryStep_def list_all2_conv_all_nth)

lemma grows_weaken: "grows K es es' \<Longrightarrow> grows (\<lambda>v. False) es es'"
  unfolding grows_def entryStep_def
  by (auto simp: list_all2_conv_all_nth callStep_def)

lemma grows_ids:
  assumes "grows K es es'" and "i < length es"
  shows "i < length es'"
    and "map tc_id (toolCalls (snd (es' ! i))) = map tc_id (toolCalls (snd (es ! i)))"
proof -
  from assms show "i < length es'" by (simp add: grows_def)
  from assms have "list_all2 (callStep K) (toolCalls (snd (es ! i))) (toolCalls (snd (es' ! i)))"
    by (simp add: grows_def entryStep_def)
  then show "map tc_id (toolCalls (snd (es' ! i))) = map tc_id (toolCalls (snd (es ! i)))"
    by (auto simp: list_all2_conv_all_nth callStep_def intro!: nth_equalityI)
qed

lemma firstMatch_ids:
  assumes "map (map tc_id) tss = map (map tc_id) tss'"
  shows "firstMatch ref tss = firstMatch ref tss'"
  using assms
proof (induction tss arbitrary: tss')
  case Nil
  then show ?case by simp
next
  case (Cons ts tss)
  then obtain ts' rest where t: "tss' = ts' # rest" "map tc_id ts = map tc_id ts'"
      "map (map tc_id) tss = map (map tc_id) rest"
    by (cases tss') auto
  have "findIndex (\<lambda>tc. strict_eq (tc_id tc) ref) ts
          = findIndex (\<lambda>tc. strict_eq (tc_id tc) ref) ts'"
    using t(2)
  proof (induction ts arbitrary: ts')
    case Nil
    then show ?case by simp
  next
    case (Cons a ts)
    then show ?case by (cases ts') auto
  qed
  with Cons.IH[OF t(3)] t(1) show ?case by (simp split: option.splits)
qed

lemma firstMatch_append:
  "firstMatch ref tss = Some p \<Longrightarrow> firstMatch ref (tss @ new) = Some p"
  by (induction tss arbitrary: p) (auto split: option.splits)

lemma firstMatch_grows:
  assumes g: "grows K es es'"
    and fm: "firstMatch ref (map (\<lambda>e. toolCalls (snd e)) es) = Some p"
  shows "firstMatch ref (map (\<lambda>e. toolCalls (snd e)) es') = Some p"
proof -
  from g have len: "length es \<le> length es'" by (simp add: grows_def)
  have "map (map tc_id) (map (\<lambda>e. toolCalls (snd e)) (take (length es) es'))
          = map (map tc_id) (map (\<lambda>e. toolCalls (snd e)) es)"
    using len grows_ids(2)[OF g] by (auto intro!: nth_equalityI)
  from firstMatch_ids[OF this, of ref] fm
  have "firstMatch ref (map (\<lambda>e. toolCalls (snd e)) (take (length es) es')) = Some p"
    by simp
  from firstMatch_append[OF this, of "map (\<lambda>e. toolCalls (snd e)) (drop (length es) es')"]
  show ?thesis
    by (simp only: map_append[symmetric] append_take_drop_id)
qed

lemma forEachMessage_append_Inr:
  assumes "forEachMessage rnd ex st (xs @ ys) = Inr st''"
  obtains st' where "forEachMessage rnd ex st xs = Inr st'"
    and "forEachMessage rnd ex st' ys = Inr st''"
  using assms
  by (cases "forEachMessage rnd ex st xs") (auto simp: forEachMessage_append)

lemma forEachMessage_append_Inr_intro:
  "forEachMessage rnd ex st xs = Inr st' \<Longrightarrow> forEachMessage rnd ex st' ys = Inr st''
     \<Longrightarrow> forEachMessage rnd ex st (xs @ ys) = Inr st''"
  by (simp add: forEachMessage_append)

lemma forEachMessage_single:
  "processMessage rnd ex st m = Inr st' \<Longrightarrow> forEachMessage rnd ex st [m] = Inr st'"
  by simp

lemma calls_withShowAvatar:
  "map toolCalls (withShowAvatar (map snd es)) = map (\<lambda>e. toolCalls (snd e)) es"
  by (simp add: toolCalls_withShowAvatar comp_def)

text \<open>Folding a tool result into a map that holds a matching tool call.\<close>

lemma foldToolResult_at:
  assumes fm: "firstMatch ref (map (\<lambda>e. toolCalls (snd e)) es) = Some (i, j)"
  shows "i < length es" and "j < length (toolCalls (snd (es ! i)))"
    and "length (foldToolResult ref res es) = length es"
    and "toolCalls (snd (foldToolResult ref res es ! i)) ! j
           = (toolCalls (snd (es ! i)) ! j)\<lparr>tc_status := Completed, tc_result := Some res\<rparr>"
    and "strict_eq (tc_id (toolCalls (snd (es ! i)) ! j)) ref"
proof -
  note s = firstMatch_Some[OF fm]
  from s show i: "i < length es" by simp
  with s show j: "j < length (toolCalls (snd (es ! i)))" by simp
  show "length (foldToolResult ref res es) = length es"
    by (rule length_foldToolResult)
  from i j fm show "toolCalls (snd (foldToolResult ref res es ! i)) ! j
           = (toolCalls (snd (es ! i)) ! j)\<lparr>tc_status := Completed, tc_result := Some res\<rparr>"
    by (simp add: foldToolResult_firstMatch)
  from s i show "strict_eq (tc_id (toolCalls (snd (es ! i)) ! j)) ref" by simp
qed

lemma processMessage_tool:
  "msg_type t = ''tool'' \<Longrightarrow> truthy (tool_call_id t) \<Longrightarrow>
     processMessage rnd ex (k, es) t = Inr (k, foldToolResult (tool_call_id t) (ex t) es)"
  by (simp add: processMessage_def)

subsection \<open>Determinism\<close>

text \<open>
  Claim C1 states that two runs on the same input give structurally identical outputs.
  A tool call without an id receives a synthetic id built from \<^verbatim>\<open>Math.random()\<close>, so
  two runs, which draw different numbers, give that tool call different ids.
\<close>

theorem synthetic_ids_differ_between_runs:
  "processedMessages drawsA textOf [msgAnonymous]
     \<noteq> processedMessages drawsB textOf [msgAnonymous]"
  by (simp add: pass_defs sample_defs)

lemma toolCallWithStatus_draw_free:
  "truthy (getProp raw ''id'') \<Longrightarrow> toolCallWithStatus rnd k raw = toolCallWithStatus rnd' k raw"
  by (simp add: toolCallWithStatus_def Let_def)

lemma mapToolCalls_draw_free:
  "\<forall>raw\<in>set raws. truthy (getProp raw ''id'')
   \<Longrightarrow> mapToolCalls rnd k raws = mapToolCalls rnd' k raws"
proof (induction raws arbitrary: k)
  case Nil
  then show ?case by simp
next
  case (Cons raw raws)
  then have "toolCallWithStatus rnd k raw = toolCallWithStatus rnd' k raw"
    by (simp add: toolCallWithStatus_draw_free)
  with Cons show ?case
    by (auto split: sum.splits)
qed

lemma processMessage_draw_free:
  assumes "msg_type m = ''ai'' \<longrightarrow> (\<forall>raw\<in>set (invocationsOf m). truthy (getProp raw ''id''))"
  shows "processMessage rnd ex st m = processMessage rnd' ex st m"
proof (cases "msg_type m = ''ai''")
  case True
  show ?thesis
  proof (cases "toolCallsInMessage m")
    case (Inl e)
    with True show ?thesis by (simp add: processMessage_def)
  next
    case (Inr raws)
    with True assms have "\<forall>raw\<in>set raws. truthy (getProp raw ''id'')"
      by (simp add: invocationsOf_def)
    from mapToolCalls_draw_free[OF this, of rnd "fst st" rnd'] True Inr
    show ?thesis by (simp add: processMessage_def)
  qed
next
  case False
  then show ?thesis by (simp add: processMessage_def)
qed

lemma forEachMessage_draw_free:
  assumes "\<forall>m\<in>set M. msg_type m = ''ai'' \<longrightarrow>
             (\<forall>raw\<in>set (invocationsOf m). truthy (getProp raw ''id''))"
  shows "forEachMessage rnd ex st M = forEachMessage rnd' ex st M"
  using assms
proof (induction M arbitrary: st)
  case Nil
  then show ?case by simp
next
  case (Cons m M)
  then have "processMessage rnd ex st m = processMessage rnd' ex st m"
    using processMessage_draw_free[of m rnd ex st rnd'] by simp
  with Cons show ?case by (auto split: sum.splits)
qed

text \<open>
  Claim C1, amended. When every invocation of every assistant message of the input carries
  an id, no random number is drawn and the output does not depend on the run: any two runs
  give identical outputs (same turns, tool-call ids, names, arguments, statuses, results
  and avatar flags, or the same error). A tool call without an id gets a freshly generated
  id, which differs from run to run.
\<close>

theorem deterministic_when_ids_given:
  assumes "\<forall>m\<in>set M. msg_type m = ''ai'' \<longrightarrow>
             (\<forall>raw\<in>set (invocationsOf m). truthy (getProp raw ''id''))"
  shows "processedMessages rnd ex M = processedMessages rnd' ex M"
  using forEachMessage_draw_free[OF assms, of rnd ex "(0, [])" rnd']
  by (simp add: processedMessages_def)

theorem deterministic_when_ids_given_witness:
  "invocationsOf msg2 = [searchCall] \<and> truthy (getProp searchCall ''id'')
   \<and> processedMessages drawsA textOf [msg1, msg2, msg3]
       = processedMessages drawsB textOf [msg1, msg2, msg3]"
proof -
  have inv: "invocationsOf msg2 = [searchCall]"
    by (simp add: invocationsOf_def pass_defs sample_defs)
  have ids: "truthy (getProp searchCall ''id'')"
    by (simp add: sample_defs)
  have types: "msg_type msg1 \<noteq> ''ai''" "msg_type msg3 \<noteq> ''ai''"
    by (simp_all add: sample_defs)
  have hyp: "\<forall>m\<in>set [msg1, msg2, msg3]. msg_type m = ''ai'' \<longrightarrow>
           (\<forall>raw\<in>set (invocationsOf m). truthy (getProp raw ''id''))"
    using inv ids types by simp
  from deterministic_when_ids_given [OF hyp, of drawsA textOf drawsB] inv ids
  show ?thesis by simp
qed

subsection \<open>Priority of the three encodings\<close>

text \<open>
  Claim C2. The three encodings of the tool calls of an assistant message are tried in a
  strict order and exactly one is used. When \<^verbatim>\<open>additional_kwargs.tool_calls\<close> is an array
  (the nested shape), the extracted tool calls are its elements whatever the flat
  \<^verbatim>\<open>tool_calls\<close> field and the content hold, and the turn stored for the message carries
  their normalisation. Otherwise, when \<^verbatim>\<open>tool_calls\<close> is an array, they are its elements
  with a name other than the empty string, whatever the content holds. Otherwise, when the
  content is an array, they are its blocks of type \<^verbatim>\<open>tool_use\<close>. Otherwise there are none.
\<close>

theorem shape_priority:
  "(optProp (additional_kwargs m) ''tool_calls'' = JArr nested \<longrightarrow>
      toolCallsInMessage (m\<lparr>tool_calls := otherFlat, content := otherContent\<rparr>) = Inr nested
      \<and> (msg_type m = ''ai'' \<longrightarrow>
           processMessage rnd ex (k, es) m =
             (case mapToolCalls rnd k nested of
                Inl e \<Rightarrow> Inl e
              | Inr (k', tcs) \<Rightarrow>
                  Inr (k', mapSet es (msg_id m) \<lparr>message = m, toolCalls = tcs\<rparr>))))
   \<and> (\<not> isArray (optProp (additional_kwargs m) ''tool_calls'') \<and> tool_calls m = JArr flat \<longrightarrow>
      toolCallsInMessage (m\<lparr>content := otherContent\<rparr>) =
        filterByProp (\<lambda>toolCall. getProp toolCall ''name'' \<noteq> JStr []) flat)
   \<and> (\<not> isArray (optProp (additional_kwargs m) ''tool_calls'') \<and> \<not> isArray (tool_calls m)
        \<and> content m = JArr blocks \<longrightarrow>
      toolCallsInMessage m =
        filterByProp (\<lambda>block. getProp block ''type'' = JStr ''tool_use'') blocks)
   \<and> (\<not> isArray (optProp (additional_kwargs m) ''tool_calls'') \<and> \<not> isArray (tool_calls m)
        \<and> \<not> isArray (content m) \<longrightarrow>
      toolCallsInMessage m = Inr [])"
  by (auto simp: toolCallsInMessage_def processMessage_def isArray_truthy
           split: sum.splits)

theorem shape_priority_witness:
  "optProp (additional_kwargs msgNested) ''tool_calls'' = JArr [nestedCall]
   \<and> msg_type msgNested = ''ai''
   \<and> tool_calls msgNested = JArr [searchCall]
   \<and> toolCallsInMessage msgNested = Inr [nestedCall]
   \<and> processMessage drawsA textOf (0, []) msgNested =
        Inr (0, [(Some ''7'',
                  \<lparr>message = msgNested,
                   toolCalls = [\<lparr>tc_id = JStr ''n1'', tc_name = JStr ''lookup'',
                                 tc_args = JStr ''{}'', tc_status = Pending,
                                 tc_result = None\<rparr>]\<rparr>)])
   \<and> \<not> isArray (optProp (additional_kwargs msgFlat) ''tool_calls'')
   \<and> tool_calls msgFlat = JArr [unnamedCall, searchCall]
   \<and> toolCallsInMessage msgFlat = Inr [searchCall]
   \<and> \<not> isArray (optProp (additional_kwargs msgBlocks) ''tool_calls'')
   \<and> \<not> isArray (tool_calls msgBlocks)
   \<and> content msgBlocks = JArr [textBlock, useBlock]
   \<and> toolCallsInMessage msgBlocks = Inr [useBlock]
   \<and> \<not> isArray (content msgPlain)
   \<and> toolCallsInMessage msgPlain = Inr []"
proof -
  have n: "optProp (additional_kwargs msgNested) ''tool_calls'' = JArr [nestedCall]"
    "msg_type msgNested = ''ai''" "tool_calls msgNested = JArr [searchCall]"
    by (simp_all add: optProp_def sample_defs)
  have f: "\<not> isArray (optProp (additional_kwargs msgFlat) ''tool_calls'')"
    "tool_calls msgFlat = JArr [unnamedCall, searchCall]"
    by (simp_all add: optProp_def sample_defs)
  have b: "\<not> isArray (optProp (additional_kwargs msgBlocks) ''tool_calls'')"
    "\<not> isArray (tool_calls msgBlocks)" "content msgBlocks = JArr [textBlock, useBlock]"
    by (simp_all add: optProp_def sample_defs)
  have p: "\<not> isArray (optProp (additional_kwargs msgPlain) ''tool_calls'')"
    "\<not> isArray (tool_calls msgPlain)" "\<not> isArray (content msgPlain)"
    by (simp_all add: optProp_def sample_defs)
  have same: "msgNested\<lparr>tool_calls := tool_calls msgNested, content := content msgNested\<rparr>
                = msgNested"
    "msgFlat\<lparr>content := content msgFlat\<rparr> = msgFlat"
    by simp_all
  have norm: "mapToolCalls drawsA 0 [nestedCall] =
                Inr (0, [\<lparr>tc_id = JStr ''n1'', tc_name = JStr ''lookup'',
                           tc_args = JStr ''{}'', tc_status = Pending, tc_result = None\<rparr>])"
    by (simp add: toolCallWithStatus_def optProp_def jsOr_def nestedCall_def)
  have flt: "filterByProp (\<lambda>toolCall. getProp toolCall ''name'' \<noteq> JStr [])
               [unnamedCall, searchCall] = Inr [searchCall]"
    "filterByProp (\<lambda>block. getProp block ''type'' = JStr ''tool_use'')
               [textBlock, useBlock] = Inr [useBlock]"
    by (simp_all add: filterByProp_def sample_defs)
  have id7: "msg_id msgNested = Some ''7''"
    by (simp add: sample_defs)
  have c1: "toolCallsInMessage msgNested = Inr [nestedCall]
            \<and> processMessage drawsA textOf (0, []) msgNested =
                Inr (0, [(Some ''7'',
                  \<lparr>message = msgNested,
                   toolCalls = [\<lparr>tc_id = JStr ''n1'', tc_name = JStr ''lookup'',
                                 tc_args = JStr ''{}'', tc_status = Pending,
                                 tc_result = None\<rparr>]\<rparr>)])"
    using shape_priority [where m = msgNested and nested = "[nestedCall]"
            and otherFlat = "tool_calls msgNested" and otherContent = "content msgNested"
            and rnd = drawsA and ex = textOf and k = 0 and es = "[]"] n(1,2)
    unfolding same norm id7 by simp
  have c2: "toolCallsInMessage msgFlat = Inr [searchCall]"
    using shape_priority [where m = msgFlat and otherContent = "content msgFlat"
            and flat = "[unnamedCall, searchCall]"] f
    unfolding same flt by simp
  have c3: "toolCallsInMessage msgBlocks = Inr [useBlock]"
    using shape_priority [where m = msgBlocks and blocks = "[textBlock, useBlock]"] b
    unfolding flt by simp
  have c4: "toolCallsInMessage msgPlain = Inr []"
    using shape_priority [where m = msgPlain] p by simp
  from c1 c2 c3 c4 n f b p show ?thesis by simp
qed

subsection \<open>Completion is monotone under appending messages\<close>

text \<open>
  Claim C3. Let the input \<open>M\<close> be extended by further messages \<open>N\<close>, the ids of the human
  and assistant messages being unique within the extended input. If the tool call at
  position \<open>j\<close> of turn \<open>i\<close> of the output for \<open>M\<close> is completed, then in every output for
  \<open>M @ N\<close> turn \<open>i\<close> exists and has the same source message, its tool call at position \<open>j\<close>
  exists, has the same id and is completed. Such an output exists whenever the tool-call
  entries of the appended assistant messages are values whose properties can be read.
  The two outputs are taken for the same sequence of random draws, so that the tool calls
  of \<open>M\<close> that lack an id receive the same synthetic ids in both.
\<close>

theorem completed_stays_completed:
  assumes dist: "distinct (map msg_id (filter rendersTurn (M @ N)))"
    and run: "processedMessages rnd ex M = Inr out"
    and i: "i < length out" and j: "j < length (toolCalls (out ! i))"
    and c: "tc_status (toolCalls (out ! i) ! j) = Completed"
  shows "(\<forall>out'. processedMessages rnd ex (M @ N) = Inr out' \<longrightarrow>
            i < length out' \<and> message (out' ! i) = message (out ! i)
            \<and> j < length (toolCalls (out' ! i))
            \<and> tc_id (toolCalls (out' ! i) ! j) = tc_id (toolCalls (out ! i) ! j)
            \<and> tc_status (toolCalls (out' ! i) ! j) = Completed)
         \<and> ((\<forall>m\<in>set N. msg_type m = ''ai'' \<longrightarrow> (\<forall>x\<in>set (listedItems m). \<not> nullish x))
              \<longrightarrow> (\<exists>out'. processedMessages rnd ex (M @ N) = Inr out'))"
proof (rule conjI; intro allI impI)
  fix out' assume run': "processedMessages rnd ex (M @ N) = Inr out'"
  from processedMessages_Inr[OF run] obtain k and es :: messageMap where
    runM: "forEachMessage rnd ex (0, []) M = Inr (k, es)"
    and len: "length out = length es"
    and nth: "\<And>i. i < length es \<Longrightarrow> message (out ! i) = message (snd (es ! i))
                                  \<and> toolCalls (out ! i) = toolCalls (snd (es ! i))"
    by blast
  from processedMessages_Inr[OF run'] obtain k' and es' :: messageMap where
    runMN: "forEachMessage rnd ex (0, []) (M @ N) = Inr (k', es')"
    and len': "length out' = length es'"
    and nth': "\<And>i. i < length es' \<Longrightarrow> message (out' ! i) = message (snd (es' ! i))
                                  \<and> toolCalls (out' ! i) = toolCalls (snd (es' ! i))"
    by blast
  from runMN runM have runN: "forEachMessage rnd ex (k, es) N = Inr (k', es')"
    by (simp add: forEachMessage_append)
  have g: "grows (\<lambda>v. False) es es'"
    by (rule forEachMessage_appended_grows[OF dist runM runN]) simp
  from i len have ie: "i < length es" by simp
  with j nth have je: "j < length (toolCalls (snd (es ! i)))" by simp
  note gc = grows_call[OF g ie je]
  from gc have ie': "i < length es'" by simp
  from nth[OF ie] have o: "message (out ! i) = message (snd (es ! i))"
    "toolCalls (out ! i) = toolCalls (snd (es ! i))" by simp_all
  from nth'[OF ie'] have o': "message (out' ! i) = message (snd (es' ! i))"
    "toolCalls (out' ! i) = toolCalls (snd (es' ! i))" by simp_all
  from gc have cs: "callStep (\<lambda>v. False) (toolCalls (snd (es ! i)) ! j)
                      (toolCalls (snd (es' ! i)) ! j)" by simp
  from c have "tc_status (toolCalls (snd (es ! i)) ! j) = Completed"
    unfolding o by simp
  with cs have r: "tc_id (toolCalls (snd (es' ! i)) ! j) = tc_id (toolCalls (snd (es ! i)) ! j)"
    "tc_status (toolCalls (snd (es' ! i)) ! j) = Completed"
    unfolding callStep_def by simp_all
  from gc je have l: "j < length (toolCalls (snd (es' ! i)))" by simp
  from gc have msg: "message (snd (es' ! i)) = message (snd (es ! i))" by simp
  from ie' len' have a1: "i < length out'" by simp
  from msg have a2: "message (out' ! i) = message (out ! i)"
    by (simp only: o o')
  from l have a3: "j < length (toolCalls (out' ! i))"
    by (simp only: o')
  from r(1) have a4: "tc_id (toolCalls (out' ! i) ! j) = tc_id (toolCalls (out ! i) ! j)"
    by (simp only: o o')
  from r(2) have a5: "tc_status (toolCalls (out' ! i) ! j) = Completed"
    by (simp only: o')
  from a1 a2 a3 a4 a5
  show "i < length out' \<and> message (out' ! i) = message (out ! i)
        \<and> j < length (toolCalls (out' ! i))
        \<and> tc_id (toolCalls (out' ! i) ! j) = tc_id (toolCalls (out ! i) ! j)
        \<and> tc_status (toolCalls (out' ! i) ! j) = Completed"
    by (intro conjI)
next
  assume wf: "\<forall>m\<in>set N. msg_type m = ''ai'' \<longrightarrow> (\<forall>x\<in>set (listedItems m). \<not> nullish x)"
  from run obtain k and es :: messageMap where
    runM: "forEachMessage rnd ex (0, []) M = Inr (k, es)"
    by (cases "forEachMessage rnd ex (0, []) M") (auto simp: processedMessages_def)
  from forEachMessage_total[OF wf, of rnd ex "(k, es)"]
  obtain st' where "forEachMessage rnd ex (k, es) N = Inr st'" by blast
  with runM have "processedMessages rnd ex (M @ N) = Inr (withShowAvatar (map snd (snd st')))"
    by (simp add: processedMessages_def forEachMessage_append)
  then show "\<exists>out'. processedMessages rnd ex (M @ N) = Inr out'" by blast
qed

theorem completed_stays_completed_witness:
  "distinct (map msg_id (filter rendersTurn ([msg1, msg2, msg3] @ [msg6, msg4])))
   \<and> processedMessages drawsA textOf [msg1, msg2, msg3] =
        Inr [\<lparr>message = msg1, toolCalls = [], showAvatar = True\<rparr>,
             \<lparr>message = msg2,
              toolCalls = [\<lparr>tc_id = JStr ''t1'', tc_name = JStr ''search'',
                            tc_args = JObj [(''q'', JStr ''x'')], tc_status = Completed,
                            tc_result = Some ''result-x''\<rparr>],
              showAvatar = True\<rparr>]
   \<and> (\<exists>out'. processedMessages drawsA textOf ([msg1, msg2, msg3] @ [msg6, msg4]) = Inr out'
          \<and> 1 < length out' \<and> message (out' ! 1) = msg2
          \<and> 0 < length (toolCalls (out' ! 1))
          \<and> tc_id (toolCalls (out' ! 1) ! 0) = JStr ''t1''
          \<and> tc_status (toolCalls (out' ! 1) ! 0) = Completed)"
proof -
  let ?out = "[\<lparr>message = msg1, toolCalls = [], showAvatar = True\<rparr>,
             \<lparr>message = msg2,
              toolCalls = [\<lparr>tc_id = JStr ''t1'', tc_name = JStr ''search'',
                            tc_args = JObj [(''q'', JStr ''x'')], tc_status = Completed,
                            tc_result = Some ''result-x''\<rparr>],
              showAvatar = True\<rparr>]"
  have dist: "distinct (map msg_id (filter rendersTurn ([msg1, msg2, msg3] @ [msg6, msg4])))"
    by (simp add: rendersTurn_def sample_defs)
  have run: "processedMessages drawsA textOf [msg1, msg2, msg3] = Inr ?out"
    by (simp add: pass_defs sample_defs)
  have i: "1 < length ?out" and j: "0 < length (toolCalls (?out ! 1))"
    and c: "tc_status (toolCalls (?out ! 1) ! 0) = Completed"
    by simp_all
  have types: "msg_type msg6 \<noteq> ''ai''" "msg_type msg4 \<noteq> ''ai''"
    by (simp_all add: sample_defs)
  then have wf: "\<forall>m\<in>set [msg6, msg4]. msg_type m = ''ai''
                   \<longrightarrow> (\<forall>x\<in>set (listedItems m). \<not> nullish x)"
    by simp
  note mono = completed_stays_completed [OF dist run i j c]
  from mono wf obtain out' where
    run': "processedMessages drawsA textOf ([msg1, msg2, msg3] @ [msg6, msg4]) = Inr out'"
    by blast
  with mono have "1 < length out' \<and> message (out' ! 1) = message (?out ! 1)
            \<and> 0 < length (toolCalls (out' ! 1))
            \<and> tc_id (toolCalls (out' ! 1) ! 0) = tc_id (toolCalls (?out ! 1) ! 0)
            \<and> tc_status (toolCalls (out' ! 1) ! 0) = Completed"
    by blast
  then have "1 < length out' \<and> message (out' ! 1) = msg2
            \<and> 0 < length (toolCalls (out' ! 1))
            \<and> tc_id (toolCalls (out' ! 1) ! 0) = JStr ''t1''
            \<and> tc_status (toolCalls (out' ! 1) ! 0) = Completed"
    by simp
  with run' have "\<exists>out'. processedMessages drawsA textOf ([msg1, msg2, msg3] @ [msg6, msg4])
                       = Inr out'
          \<and> 1 < length out' \<and> message (out' ! 1) = msg2
          \<and> 0 < length (toolCalls (out' ! 1))
          \<and> tc_id (toolCalls (out' ! 1) ! 0) = JStr ''t1''
          \<and> tc_status (toolCalls (out' ! 1) ! 0) = Completed"
    by blast
  with dist run show ?thesis by (intro conjI)
qed

subsection \<open>Orphan tool results\<close>

text \<open>
  Claim C4. A tool-result message whose reference id matches no tool-call id of an earlier
  assistant message (neither an id given by an invocation of an earlier assistant message
  nor a synthetic id of this run) is dropped: the output, or the error, of the pass is that
  of the same input without the message. So no status or result changes, the message
  yields no turn, and it raises nothing.
\<close>

theorem orphan_tool_result_is_dropped:
  assumes tool: "msg_type t = ''tool''"
    and given: "\<forall>m\<in>set M1. \<forall>raw\<in>set (invocationsOf m).
                  \<not> strict_eq (getProp raw ''id'') (tool_call_id t)"
    and synth: "\<forall>j. tool_call_id t \<noteq> JStr (''tool-'' @ rnd j)"
  shows "processedMessages rnd ex (M1 @ t # M2) = processedMessages rnd ex (M1 @ M2)"
proof (cases "forEachMessage rnd ex (0, []) M1")
  case (Inl e)
  then show ?thesis
    by (simp add: processedMessages_def forEachMessage_append)
next
  case (Inr st)
  obtain k and es :: messageMap where st: "st = (k, es)" by (cases st)
  let ?P = "\<lambda>d. \<forall>tc\<in>set (toolCalls d). \<not> strict_eq (tc_id tc) (tool_call_id t)"
  have inv: "\<forall>(key, d)\<in>set es. ?P d"
  proof (rule forEachMessage_entries[OF Inr[unfolded st]])
    show "\<forall>(key, d)\<in>set []. ?P d" by simp
  next
    fix m k raws k' tcs
    assume m: "m \<in> set M1" and ai: "msg_type m = ''ai''"
      and raws: "toolCallsInMessage m = Inr raws"
      and tcs: "mapToolCalls rnd k raws = Inr (k', tcs)"
    have "\<forall>tc\<in>set tcs. \<not> strict_eq (tc_id tc) (tool_call_id t)"
    proof
      fix tc assume "tc \<in> set tcs"
      from mapToolCalls_ids[OF tcs this] show "\<not> strict_eq (tc_id tc) (tool_call_id t)"
      proof
        assume "\<exists>raw\<in>set raws. tc_id tc = getProp raw ''id''"
        with given m invocationsOf_ai[OF ai raws] show ?thesis by auto
      next
        assume "\<exists>j. tc_id tc = JStr (''tool-'' @ rnd j)"
        with synth show ?thesis by (auto dest: strict_eq_eq)
      qed
    qed
    then show "?P \<lparr>message = m, toolCalls = tcs\<rparr>" by simp
  next
    fix m :: message assume "msg_type m = ''human''"
    show "?P \<lparr>message = m, toolCalls = []\<rparr>" by simp
  next
    fix d :: entry and i s
    assume "?P d" and "i < length (toolCalls d)"
    then show "?P (d\<lparr>toolCalls := (toolCalls d)
                   [i := (toolCalls d ! i)\<lparr>tc_status := Completed, tc_result := Some s\<rparr>]\<rparr>)"
      by (auto simp: set_conv_nth nth_list_update)
  qed
  have "processMessage rnd ex (k, es) t = Inr (k, es)"
    using tool foldToolResult_no_match[OF inv]
    by (simp add: processMessage_def)
  with Inr st show ?thesis
    by (simp add: processedMessages_def forEachMessage_append)
qed

theorem orphan_tool_result_is_dropped_witness:
  "msg_type msg4 = ''tool'' \<and> tool_call_id msg4 = JStr ''t-nonexistent''
   \<and> invocationsOf msg1 = [] \<and> invocationsOf msg2 = [searchCall] \<and> invocationsOf msg3 = []
   \<and> getProp searchCall ''id'' = JStr ''t1''
   \<and> processedMessages drawsA textOf ([msg1, msg2, msg3] @ msg4 # [msg6])
       = processedMessages drawsA textOf ([msg1, msg2, msg3] @ [msg6])
   \<and> processedMessages drawsA textOf ([msg1, msg2, msg3] @ [msg6])
       = Inr [\<lparr>message = msg1, toolCalls = [], showAvatar = True\<rparr>,
              \<lparr>message = msg2,
               toolCalls = [\<lparr>tc_id = JStr ''t1'', tc_name = JStr ''search'',
                             tc_args = JObj [(''q'', JStr ''x'')], tc_status = Completed,
                             tc_result = Some ''result-x''\<rparr>],
               showAvatar = True\<rparr>,
              \<lparr>message = msg6, toolCalls = [], showAvatar = True\<rparr>]"
proof -
  have t: "msg_type msg4 = ''tool''" and r: "tool_call_id msg4 = JStr ''t-nonexistent''"
    by (simp_all add: sample_defs)
  have inv: "invocationsOf msg1 = []" "invocationsOf msg2 = [searchCall]"
    "invocationsOf msg3 = []"
    by (simp_all add: invocationsOf_def pass_defs sample_defs)
  have i: "getProp searchCall ''id'' = JStr ''t1''"
    by (simp add: sample_defs)
  have given: "\<forall>m\<in>set [msg1, msg2, msg3]. \<forall>raw\<in>set (invocationsOf m).
                 \<not> strict_eq (getProp raw ''id'') (tool_call_id msg4)"
    using inv i r by simp
  have synth: "\<forall>j. tool_call_id msg4 \<noteq> JStr (''tool-'' @ drawsA j)"
    using r by simp
  have run: "processedMessages drawsA textOf ([msg1, msg2, msg3] @ [msg6])
       = Inr [\<lparr>message = msg1, toolCalls = [], showAvatar = True\<rparr>,
              \<lparr>message = msg2,
               toolCalls = [\<lparr>tc_id = JStr ''t1'', tc_name = JStr ''search'',
                             tc_args = JObj [(''q'', JStr ''x'')], tc_status = Completed,
                             tc_result = Some ''result-x''\<rparr>],
               showAvatar = True\<rparr>,
              \<lparr>message = msg6, toolCalls = [], showAvatar = True\<rparr>]"
    by (simp add: pass_defs sample_defs)
  from orphan_tool_result_is_dropped [OF t given synth, of textOf "[msg6]"] t r inv i run
  show ?thesis by simp
qed

subsection \<open>Ids of the tool calls of one turn\<close>

text \<open>
  Claim C5 states that no two tool calls of one output turn share an id. The ids are taken
  as the messages give them, and nothing removes duplicates: an assistant message that
  lists the call \<^verbatim>\<open>t1\<close> twice yields a turn with two tool calls of id \<^verbatim>\<open>t1\<close>.
\<close>

theorem duplicate_ids_in_one_turn:
  "processedMessages drawsA textOf [msgTwice] =
     Inr [\<lparr>message = msgTwice,
           toolCalls = [\<lparr>tc_id = JStr ''t1'', tc_name = JStr ''search'',
                         tc_args = JObj [(''q'', JStr ''x'')], tc_status = Pending,
                         tc_result = None\<rparr>,
                        \<lparr>tc_id = JStr ''t1'', tc_name = JStr ''search'',
                         tc_args = JObj [(''q'', JStr ''x'')], tc_status = Pending,
                         tc_result = None\<rparr>],
           showAvatar = True\<rparr>]
   \<and> \<not> distinct [JStr ''t1'', JStr ''t1'']"
  by (simp add: pass_defs sample_defs)

text \<open>The ids that one run of the normalisation hands out.\<close>

lemma mapToolCalls_distinct_ids:
  assumes run: "mapToolCalls rnd k raws = Inr (k', tcs)"
    and inj: "inj rnd"
    and given: "distinct (filter truthy (map (\<lambda>raw. getProp raw ''id'') raws))"
    and apart: "\<forall>raw\<in>set raws. \<forall>n. getProp raw ''id'' \<noteq> JStr (''tool-'' @ rnd n)"
  shows "distinct (map tc_id tcs) \<and> k \<le> k'
         \<and> (\<forall>tc\<in>set tcs.
               (truthy (tc_id tc) \<and> tc_id tc \<in> set (map (\<lambda>raw. getProp raw ''id'') raws))
               \<or> (\<exists>n. k \<le> n \<and> n < k' \<and> tc_id tc = JStr (''tool-'' @ rnd n)))"
  using run given apart
proof (induction raws arbitrary: k tcs)
  case Nil
  then show ?case by simp
next
  case (Cons raw raws)
  from Cons.prems(1) obtain k1 tc ts where
    h: "toolCallWithStatus rnd k raw = Inr (k1, tc)"
    and r: "mapToolCalls rnd k1 raws = Inr (k', ts)" and t: "tcs = tc # ts"
    by (auto split: sum.splits)
  note n = toolCallWithStatus_Inr[OF h]
  have given': "distinct (filter truthy (map (\<lambda>raw. getProp raw ''id'') raws))"
    using Cons.prems(2) by (auto split: if_splits)
  have apart': "\<forall>raw\<in>set raws. \<forall>n. getProp raw ''id'' \<noteq> JStr (''tool-'' @ rnd n)"
    using Cons.prems(3) by simp
  note ih = Cons.IH[OF r given' apart']
  from ih have le: "k1 \<le> k'" by simp
  from n have kk: "k \<le> k1" by (simp split: if_splits)
  have fresh: "tc_id tc \<notin> set (map tc_id ts)"
  proof
    assume "tc_id tc \<in> set (map tc_id ts)"
    then obtain tc' where tc': "tc' \<in> set ts" "tc_id tc' = tc_id tc" by auto
    from ih tc'(1) have
      "(truthy (tc_id tc') \<and> tc_id tc' \<in> set (map (\<lambda>raw. getProp raw ''id'') raws))
       \<or> (\<exists>n. k1 \<le> n \<and> n < k' \<and> tc_id tc' = JStr (''tool-'' @ rnd n))"
      by blast
    then show False
    proof
      assume a: "truthy (tc_id tc') \<and> tc_id tc' \<in> set (map (\<lambda>raw. getProp raw ''id'') raws)"
      show False
      proof (cases "truthy (getProp raw ''id'')")
        case True
        with n have "tc_id tc = getProp raw ''id''" by simp
        with a tc'(2) True Cons.prems(2) show False by auto
      next
        case False
        with n have "tc_id tc = JStr (''tool-'' @ rnd k)" by simp
        with a tc'(2)
        have "JStr (''tool-'' @ rnd k) \<in> (\<lambda>raw. getProp raw ''id'') ` set raws"
          by (simp only: list.set_map)
        then obtain r0 where r0: "JStr (''tool-'' @ rnd k) = getProp r0 ''id''" "r0 \<in> set raws"
          by (rule imageE)
        from apart'[rule_format, OF r0(2), of k] r0(1)[symmetric] show False
          by (rule notE)
      qed
    next
      assume "\<exists>n. k1 \<le> n \<and> n < k' \<and> tc_id tc' = JStr (''tool-'' @ rnd n)"
      then obtain m where m: "k1 \<le> m" "tc_id tc' = JStr (''tool-'' @ rnd m)" by blast
      show False
      proof (cases "truthy (getProp raw ''id'')")
        case True
        with n have "tc_id tc = getProp raw ''id''" by simp
        with m tc'(2) Cons.prems(3) show False by auto
      next
        case False
        with n have "tc_id tc = JStr (''tool-'' @ rnd k)" "k1 = Suc k" by simp_all
        with m tc'(2) have "rnd m = rnd k" "k < m" by simp_all
        with inj show False by (auto dest: injD)
      qed
    qed
  qed
  have d: "distinct (map tc_id tcs)"
    using ih fresh t by simp
  have ids: "\<forall>x\<in>set tcs.
               (truthy (tc_id x) \<and> tc_id x \<in> set (map (\<lambda>raw. getProp raw ''id'') (raw # raws)))
               \<or> (\<exists>n. k \<le> n \<and> n < k' \<and> tc_id x = JStr (''tool-'' @ rnd n))"
  proof
    fix x assume "x \<in> set tcs"
    with t have "x = tc \<or> x \<in> set ts" by auto
    then show "(truthy (tc_id x) \<and> tc_id x \<in> set (map (\<lambda>raw. getProp raw ''id'') (raw # raws)))
               \<or> (\<exists>n. k \<le> n \<and> n < k' \<and> tc_id x = JStr (''tool-'' @ rnd n))"
    proof
      assume x: "x = tc"
      show ?thesis
      proof (cases "truthy (getProp raw ''id'')")
        case True
        with n x show ?thesis by simp
      next
        case False
        with n have "tc_id tc = JStr (''tool-'' @ rnd k)" "k1 = Suc k" by simp_all
        with le x have "k \<le> k \<and> k < k' \<and> tc_id x = JStr (''tool-'' @ rnd k)" by simp
        then show ?thesis by blast
      qed
    next
      assume "x \<in> set ts"
      with ih have
        "(truthy (tc_id x) \<and> tc_id x \<in> set (map (\<lambda>raw. getProp raw ''id'') raws))
         \<or> (\<exists>n. k1 \<le> n \<and> n < k' \<and> tc_id x = JStr (''tool-'' @ rnd n))"
        by blast
      then show ?thesis
      proof
        assume "truthy (tc_id x) \<and> tc_id x \<in> set (map (\<lambda>raw. getProp raw ''id'') raws)"
        then show ?thesis by simp
      next
        assume "\<exists>n. k1 \<le> n \<and> n < k' \<and> tc_id x = JStr (''tool-'' @ rnd n)"
        then obtain m where "k1 \<le> m" "m < k'" "tc_id x = JStr (''tool-'' @ rnd m)" by blast
        with kk have "k \<le> m \<and> m < k' \<and> tc_id x = JStr (''tool-'' @ rnd m)" by simp
        then show ?thesis by blast
      qed
    qed
  qed
  from d kk le ids show ?case by simp
qed

text \<open>
  Claim C5, amended. Ids are taken as the messages give them and are never deduplicated.
  When the ids given by the invocations of each assistant message are pairwise different,
  and the random draws of the run are pairwise different and yield no synthetic id equal
  to a given one, no two tool calls of one output turn share an id; each tool call whose
  invocation gives an id carries exactly that id.
\<close>

theorem tool_call_ids_distinct_in_turn:
  assumes run: "processedMessages rnd ex M = Inr out"
    and inj: "inj rnd"
    and given: "\<forall>m\<in>set M.
                  distinct (filter truthy (map (\<lambda>raw. getProp raw ''id'') (invocationsOf m)))"
    and apart: "\<forall>m\<in>set M. \<forall>raw\<in>set (invocationsOf m). \<forall>n.
                  getProp raw ''id'' \<noteq> JStr (''tool-'' @ rnd n)"
  shows "\<forall>t\<in>set out.
           distinct (map tc_id (toolCalls t))
           \<and> list_all2 (\<lambda>raw tc. truthy (getProp raw ''id'') \<longrightarrow> tc_id tc = getProp raw ''id'')
                 (invocationsOf (message t)) (toolCalls t)"
proof
  fix t assume t: "t \<in> set out"
  let ?R = "\<lambda>raw tc. truthy (getProp raw ''id'') \<longrightarrow> tc_id tc = getProp raw ''id''"
  let ?P = "\<lambda>d. distinct (map tc_id (toolCalls d))
                 \<and> list_all2 ?R (invocationsOf (message d)) (toolCalls d)"
  from output_entries[OF run t] obtain k es key d where
    pass: "forEachMessage rnd ex (0, []) M = Inr (k, es)" and d: "(key, d) \<in> set es"
    and eq: "message t = message d" "toolCalls t = toolCalls d"
    by blast
  have "\<forall>(key, d)\<in>set es. ?P d"
  proof (rule forEachMessage_entries[OF pass])
    show "\<forall>(key, d)\<in>set []. ?P d" by simp
  next
    fix m k raws k' tcs
    assume m: "m \<in> set M" and ai: "msg_type m = ''ai''"
      and raws: "toolCallsInMessage m = Inr raws"
      and tcs: "mapToolCalls rnd k raws = Inr (k', tcs)"
    note inv = invocationsOf_ai[OF ai raws]
    from given m inv
    have g: "distinct (filter truthy (map (\<lambda>raw. getProp raw ''id'') raws))" by auto
    from apart m inv
    have a: "\<forall>raw\<in>set raws. \<forall>n. getProp raw ''id'' \<noteq> JStr (''tool-'' @ rnd n)" by auto
    from mapToolCalls_distinct_ids[OF tcs inj g a]
    have dd: "distinct (map tc_id tcs)" by simp
    have "list_all2 ?R raws tcs"
      by (rule list_all2_mono[OF mapToolCalls_Inr[OF tcs]])
         (auto dest!: toolCallWithStatus_Inr)
    with dd inv show "?P \<lparr>message = m, toolCalls = tcs\<rparr>" by simp
  next
    fix m :: message assume "msg_type m = ''human''"
    then show "?P \<lparr>message = m, toolCalls = []\<rparr>"
      by (simp add: invocationsOf_def)
  next
    fix d :: entry and i s
    assume "?P d" and "i < length (toolCalls d)"
    then show "?P (d\<lparr>toolCalls := (toolCalls d)
                   [i := (toolCalls d ! i)\<lparr>tc_status := Completed, tc_result := Some s\<rparr>]\<rparr>)"
      by (simp add: map_tc_id_completed list_all2_completed)
  qed
  with d eq show "distinct (map tc_id (toolCalls t))
           \<and> list_all2 ?R (invocationsOf (message t)) (toolCalls t)"
    by auto
qed

theorem tool_call_ids_distinct_in_turn_witness:
  "inj drawsC
   \<and> invocationsOf msgMixed = [anonymousCall, searchCall, anonymousCall]
   \<and> getProp anonymousCall ''id'' = JUndefined \<and> getProp searchCall ''id'' = JStr ''t1''
   \<and> processedMessages drawsC textOf [msg1, msgMixed, msg3] =
        Inr [\<lparr>message = msg1, toolCalls = [], showAvatar = True\<rparr>,
             \<lparr>message = msgMixed,
              toolCalls = [\<lparr>tc_id = JStr ''tool-0.1'', tc_name = JStr ''search'',
                            tc_args = JObj [], tc_status = Pending, tc_result = None\<rparr>,
                           \<lparr>tc_id = JStr ''t1'', tc_name = JStr ''search'',
                            tc_args = JObj [(''q'', JStr ''x'')], tc_status = Completed,
                            tc_result = Some ''result-x''\<rparr>,
                           \<lparr>tc_id = JStr ''tool-0.11'', tc_name = JStr ''search'',
                            tc_args = JObj [], tc_status = Pending, tc_result = None\<rparr>],
              showAvatar = True\<rparr>]
   \<and> distinct [JStr ''tool-0.1'', JStr ''t1'', JStr ''tool-0.11'']"
proof -
  have inv: "invocationsOf msg1 = []" "invocationsOf msg3 = []"
    "invocationsOf msgMixed = [anonymousCall, searchCall, anonymousCall]"
    by (simp_all add: invocationsOf_def pass_defs sample_defs)
  have ids: "getProp anonymousCall ''id'' = JUndefined" "getProp searchCall ''id'' = JStr ''t1''"
    by (simp_all add: sample_defs)
  let ?turns = "[\<lparr>message = msg1, toolCalls = [], showAvatar = True\<rparr>,
             \<lparr>message = msgMixed,
              toolCalls = [\<lparr>tc_id = JStr ''tool-0.1'', tc_name = JStr ''search'',
                            tc_args = JObj [], tc_status = Pending, tc_result = None\<rparr>,
                           \<lparr>tc_id = JStr ''t1'', tc_name = JStr ''search'',
                            tc_args = JObj [(''q'', JStr ''x'')], tc_status = Completed,
                            tc_result = Some ''result-x''\<rparr>,
                           \<lparr>tc_id = JStr ''tool-0.11'', tc_name = JStr ''search'',
                            tc_args = JObj [], tc_status = Pending, tc_result = None\<rparr>],
              showAvatar = True\<rparr>]"
  have run: "processedMessages drawsC textOf [msg1, msgMixed, msg3] = Inr ?turns"
    by (simp add: pass_defs sample_defs)
  have given: "\<forall>m\<in>set [msg1, msgMixed, msg3].
                 distinct (filter truthy (map (\<lambda>raw. getProp raw ''id'') (invocationsOf m)))"
    using inv ids by simp
  have apart: "\<forall>m\<in>set [msg1, msgMixed, msg3]. \<forall>raw\<in>set (invocationsOf m). \<forall>n.
                 getProp raw ''id'' \<noteq> JStr (''tool-'' @ drawsC n)"
    using inv ids by simp
  from tool_call_ids_distinct_in_turn [OF run inj_drawsC given apart]
  have "distinct [JStr ''tool-0.1'', JStr ''t1'', JStr ''tool-0.11'']"
    by simp
  with inj_drawsC inv(3) ids run show ?thesis by (intro conjI)
qed

subsection \<open>Missing names and arguments\<close>

text \<open>
  Claim C6. When the entries of the tool-call arrays of the assistant messages are values
  whose properties can be read (anything but \<^verbatim>\<open>null\<close> and \<^verbatim>\<open>undefined\<close>; their name or
  arguments may be missing), the reconciliation returns without raising, and every tool
  call of every output turn is the normalisation of the invocation at the same position of
  the turn's source message: its name is the first defined one of the explicit name (nested
  function name, then flat name) and the type discriminator, else the literal
  \<^verbatim>\<open>"unknown"\<close>; its arguments are the first defined ones of the structured arguments
  (nested function arguments, then \<^verbatim>\<open>args\<close>) and the raw \<^verbatim>\<open>input\<close>, else the empty
  mapping. Both are always defined.
\<close>

theorem missing_name_or_args_fallback:
  assumes "\<forall>m\<in>set M. msg_type m = ''ai'' \<longrightarrow> (\<forall>x\<in>set (listedItems m). \<not> nullish x)"
  shows "\<exists>out. processedMessages rnd ex M = Inr out
           \<and> (\<forall>t\<in>set out.
                 list_all2 (\<lambda>raw tc. tc_name tc = fallbackName raw \<and> truthy (tc_name tc)
                                   \<and> tc_args tc = fallbackArgs raw \<and> truthy (tc_args tc))
                   (invocationsOf (message t)) (toolCalls t))"
proof -
  let ?R = "\<lambda>raw tc. tc_name tc = fallbackName raw \<and> truthy (tc_name tc)
                    \<and> tc_args tc = fallbackArgs raw \<and> truthy (tc_args tc)"
  let ?P = "\<lambda>d. list_all2 ?R (invocationsOf (message d)) (toolCalls d)"
  from forEachMessage_total[OF assms, of rnd ex "(0, [])"]
  obtain k and es :: messageMap where run: "forEachMessage rnd ex (0, []) M = Inr (k, es)"
    by (metis surj_pair)
  then have out: "processedMessages rnd ex M = Inr (withShowAvatar (map snd es))"
    by (simp add: processedMessages_def)
  have inv: "\<forall>(key, d)\<in>set es. ?P d"
  proof (rule forEachMessage_entries[OF run])
    show "\<forall>(key, d)\<in>set []. ?P d" by simp
  next
    fix m k raws k' tcs
    assume ai: "msg_type m = ''ai''" and raws: "toolCallsInMessage m = Inr raws"
      and tcs: "mapToolCalls rnd k raws = Inr (k', tcs)"
    have "list_all2 ?R raws tcs"
      by (rule list_all2_mono[OF mapToolCalls_Inr[OF tcs]])
         (auto dest!: toolCallWithStatus_Inr simp: truthy_fallbackName truthy_fallbackArgs)
    with ai raws show "?P \<lparr>message = m, toolCalls = tcs\<rparr>"
      by (simp add: invocationsOf_def)
  next
    fix m :: message assume "msg_type m = ''human''"
    then show "?P \<lparr>message = m, toolCalls = []\<rparr>"
      by (simp add: invocationsOf_def)
  next
    fix d :: entry and i s
    assume "?P d" and "i < length (toolCalls d)"
    then show "?P (d\<lparr>toolCalls := (toolCalls d)
                   [i := (toolCalls d ! i)\<lparr>tc_status := Completed, tc_result := Some s\<rparr>]\<rparr>)"
      by (simp add: list_all2_completed)
  qed
  have "\<forall>t\<in>set (withShowAvatar (map snd es)). ?P t"
  proof
    fix t assume "t \<in> set (withShowAvatar (map snd es))"
    from output_entries[OF out this] run inv show "?P t"
      by (metis (no_types, lifting) Inr_inject Pair_inject case_prodD)
  qed
  with out show ?thesis by blast
qed

theorem missing_name_or_args_fallback_witness:
  "listedItems msgBare = [bareCall] \<and> \<not> nullish bareCall
   \<and> fallbackName bareCall = JStr ''unknown'' \<and> fallbackArgs bareCall = JObj []
   \<and> processedMessages drawsA textOf [msgBare] =
        Inr [\<lparr>message = msgBare,
              toolCalls = [\<lparr>tc_id = JStr ''x1'', tc_name = JStr ''unknown'',
                            tc_args = JObj [], tc_status = Pending, tc_result = None\<rparr>],
              showAvatar = True\<rparr>]
   \<and> (\<exists>out. processedMessages drawsA textOf [msgBare] = Inr out
           \<and> (\<forall>t\<in>set out.
                 list_all2 (\<lambda>raw tc. tc_name tc = fallbackName raw \<and> truthy (tc_name tc)
                                   \<and> tc_args tc = fallbackArgs raw \<and> truthy (tc_args tc))
                   (invocationsOf (message t)) (toolCalls t)))"
proof -
  have items: "listedItems msgBare = [bareCall]"
    by (simp add: listedItems_def optProp_def sample_defs)
  have ok: "\<not> nullish bareCall"
    by (simp add: bareCall_def)
  have fb: "fallbackName bareCall = JStr ''unknown''" "fallbackArgs bareCall = JObj []"
    by (simp_all add: fallbackName_def fallbackArgs_def optProp_def bareCall_def)
  have run: "processedMessages drawsA textOf [msgBare] =
        Inr [\<lparr>message = msgBare,
              toolCalls = [\<lparr>tc_id = JStr ''x1'', tc_name = JStr ''unknown'',
                            tc_args = JObj [], tc_status = Pending, tc_result = None\<rparr>],
              showAvatar = True\<rparr>]"
    by (simp add: pass_defs sample_defs)
  have hyp: "\<forall>m\<in>set [msgBare]. msg_type m = ''ai'' \<longrightarrow> (\<forall>x\<in>set (listedItems m). \<not> nullish x)"
    using items ok by simp
  from missing_name_or_args_fallback [OF hyp, of drawsA textOf] items ok fb run
  show ?thesis by blast
qed

subsection \<open>Avatar flag\<close>

text \<open>
  Claim C7. In every output of the reconciliation the first turn has the avatar flag set,
  and every later turn has it set exactly when its message type differs from the message
  type of the turn emitted immediately before it.
\<close>

theorem showAvatar_first_or_role_change:
  assumes "processedMessages rnd ex M = Inr out" and "i < length out"
  shows "showAvatar (out ! i) =
           (i = 0 \<or> msg_type (message (out ! i)) \<noteq> msg_type (message (out ! (i - 1))))"
proof -
  from assms(1) obtain es :: messageMap where out: "out = withShowAvatar (map snd es)"
    by (cases "forEachMessage rnd ex (0, []) M") (auto simp: processedMessages_def)
  with assms(2) have i: "i < length (map snd es)"
    by (simp add: length_withShowAvatar)
  then have "i - 1 < length (map snd es)" by simp
  with i show ?thesis
    unfolding out withShowAvatar_def by (auto simp: Let_def simp del: length_map)
qed

theorem showAvatar_first_or_role_change_witness:
  "processedMessages drawsA textOf [msg1, msg6, msg2]
     = Inr [\<lparr>message = msg1, toolCalls = [], showAvatar = True\<rparr>,
            \<lparr>message = msg6, toolCalls = [], showAvatar = False\<rparr>,
            \<lparr>message = msg2,
             toolCalls = [\<lparr>tc_id = JStr ''t1'', tc_name = JStr ''search'',
                           tc_args = JObj [(''q'', JStr ''x'')], tc_status = Pending,
                           tc_result = None\<rparr>],
             showAvatar = True\<rparr>]
   \<and> showAvatar (\<lparr>message = msg6, toolCalls = [], showAvatar = False\<rparr>)
       = (msg_type msg6 \<noteq> msg_type msg1)"
proof -
  let ?out = "[\<lparr>message = msg1, toolCalls = [], showAvatar = True\<rparr>,
               \<lparr>message = msg6, toolCalls = [], showAvatar = False\<rparr>,
               \<lparr>message = msg2,
                toolCalls = [\<lparr>tc_id = JStr ''t1'', tc_name = JStr ''search'',
                              tc_args = JObj [(''q'', JStr ''x'')], tc_status = Pending,
                              tc_result = None\<rparr>],
                showAvatar = True\<rparr>]"
  have run: "processedMessages drawsA textOf [msg1, msg6, msg2] = Inr ?out"
    by (simp add: pass_defs sample_defs)
  have len: "1 < length ?out" by simp
  from showAvatar_first_or_role_change [OF run len] run show ?thesis by simp
qed

subsection \<open>Conversations of human messages only\<close>

lemma forEach_humans:
  assumes "\<forall>m\<in>set M. msg_type m = ''human''" and "distinct (map msg_id M)"
    and "msg_id ` set M \<inter> fst ` set es = {}"
  shows "forEachMessage rnd ex (k, es) M =
           Inr (k, es @ map (\<lambda>m. (msg_id m, \<lparr>message = m, toolCalls = []\<rparr>)) M)"
  using assms
proof (induction M arbitrary: es)
  case Nil
  then show ?case by simp
next
  case (Cons m M)
  have step: "processMessage rnd ex (k, es) m =
                Inr (k, es @ [(msg_id m, \<lparr>message = m, toolCalls = []\<rparr>)])"
    using Cons.prems by (simp add: processMessage_def mapSet_fresh)
  have "msg_id ` set M \<inter> fst ` set (es @ [(msg_id m, \<lparr>message = m, toolCalls = []\<rparr>)]) = {}"
    using Cons.prems by auto
  with Cons.IH[of "es @ [(msg_id m, \<lparr>message = m, toolCalls = []\<rparr>)]"] Cons.prems step
  show ?case by simp
qed

text \<open>
  Claim C8. For an input made of human messages only, with ids unique within the input,
  the output has exactly one turn per input message, in the same order (the turns' source
  messages are the input), and the tool-call list of every turn is empty.
\<close>

theorem human_only_one_turn_each:
  assumes "\<forall>m\<in>set M. msg_type m = ''human''" and "distinct (map msg_id M)"
  shows "\<exists>out. processedMessages rnd ex M = Inr out
           \<and> map message out = M \<and> (\<forall>t\<in>set out. toolCalls t = [])"
proof -
  let ?arr = "map (\<lambda>m. \<lparr>message = m, toolCalls = []\<rparr>) M"
  have run: "forEachMessage rnd ex (0, []) M =
               Inr (0, map (\<lambda>m. (msg_id m, \<lparr>message = m, toolCalls = []\<rparr>)) M)"
    using forEach_humans[OF assms, of "[]" rnd ex 0] by simp
  then have out: "processedMessages rnd ex M = Inr (withShowAvatar ?arr)"
    by (simp add: processedMessages_def comp_def)
  have m: "map message (withShowAvatar ?arr) = M"
    by (simp add: message_withShowAvatar comp_def)
  have "map toolCalls (withShowAvatar ?arr) = map (\<lambda>m. []) M"
    by (simp add: toolCalls_withShowAvatar comp_def)
  then have "\<forall>t\<in>set (withShowAvatar ?arr). toolCalls t = []"
    by (metis (no_types, lifting) ex_map_conv imageI list.set_map)
  with out m show ?thesis by blast
qed

theorem human_only_one_turn_each_witness:
  "msg_type msg1 = ''human'' \<and> msg_type msg6 = ''human''
   \<and> distinct (map msg_id [msg1, msg6])
   \<and> (\<exists>out. processedMessages drawsA textOf [msg1, msg6] = Inr out
           \<and> map message out = [msg1, msg6] \<and> (\<forall>t\<in>set out. toolCalls t = []))"
proof -
  have t: "msg_type msg1 = ''human''" "msg_type msg6 = ''human''"
    by (simp_all add: sample_defs)
  then have h: "\<forall>m\<in>set [msg1, msg6]. msg_type m = ''human''"
    by simp
  have d: "distinct (map msg_id [msg1, msg6])"
    by (simp add: sample_defs)
  from human_only_one_turn_each [OF h d, of drawsA textOf] t d show ?thesis by blast
qed

subsection \<open>Tool results without a reference\<close>

text \<open>
  Claim C9. A tool-result message whose \<^verbatim>\<open>tool_call_id\<close> is absent (missing or
  \<^verbatim>\<open>undefined\<close>, \<^verbatim>\<open>null\<close>, and likewise any other falsy value) is skipped: processing
  it returns the state unchanged without an error, so the output of the whole pass is the
  output for the input without that message: no turn for it, no status or result changed.
\<close>

theorem tool_result_without_reference_is_skipped:
  assumes "msg_type t = ''tool''" and "\<not> truthy (tool_call_id t)"
  shows "processMessage rnd ex st t = Inr st
         \<and> processedMessages rnd ex (M1 @ t # M2) = processedMessages rnd ex (M1 @ M2)"
  using assms
  by (auto simp: processedMessages_def forEachMessage_append processMessage_def
           split: sum.splits)

theorem tool_result_without_reference_is_skipped_witness:
  "msg_type msg5 = ''tool'' \<and> tool_call_id msg5 = JNull
   \<and> processMessage drawsA textOf (0, []) msg5 = Inr (0, [])
   \<and> processedMessages drawsA textOf ([msg1, msg2] @ msg5 # [msg3])
       = processedMessages drawsA textOf ([msg1, msg2] @ [msg3])"
proof -
  have t: "msg_type msg5 = ''tool''" and r: "tool_call_id msg5 = JNull"
    by (simp_all add: sample_defs)
  from r have f: "\<not> truthy (tool_call_id msg5)" by simp
  from tool_result_without_reference_is_skipped
         [OF t f, of drawsA textOf "(0, [])" "[msg1, msg2]" "[msg3]"] t r
  show ?thesis by simp
qed

subsection \<open>Two tool results for one tool call\<close>

text \<open>
  Claim C10. Let two tool-result messages \<open>t1\<close> and \<open>t2\<close> reference the same id, \<open>t2\<close>
  arriving later, in an input whose human and assistant messages have unique ids, and let
  the first tool call with that id, in insertion order of the turns, be at position \<open>j\<close> of
  turn \<open>i\<close> when \<open>t1\<close> arrives. Then \<open>t1\<close> is folded into that tool call (after it, the call
  is completed with the result of \<open>t1\<close>), and so is \<open>t2\<close>: in the output of the whole
  input, provided no later tool result references the id again, the same position is
  still the first match, its turn has the same source message, and the tool call is
  completed with the result of \<open>t2\<close>.
\<close>

theorem later_result_overwrites:
  assumes dist: "distinct (map msg_id (filter rendersTurn (A @ t1 # B @ t2 # C)))"
    and t1: "msg_type t1 = ''tool''" "tool_call_id t1 = ref"
    and t2: "msg_type t2 = ''tool''" "tool_call_id t2 = ref"
    and ref: "truthy ref"
    and tail: "\<forall>m\<in>set C. msg_type m = ''tool'' \<longrightarrow> tool_call_id m \<noteq> ref"
    and run0: "processedMessages rnd ex A = Inr out0"
    and fm: "firstMatch ref (map toolCalls out0) = Some (i, j)"
    and run: "processedMessages rnd ex (A @ t1 # B @ t2 # C) = Inr out"
  shows "(\<exists>out1. processedMessages rnd ex (A @ [t1]) = Inr out1
            \<and> firstMatch ref (map toolCalls out1) = Some (i, j)
            \<and> tc_status (toolCalls (out1 ! i) ! j) = Completed
            \<and> tc_result (toolCalls (out1 ! i) ! j) = Some (ex t1))
         \<and> firstMatch ref (map toolCalls out) = Some (i, j)
         \<and> message (out ! i) = message (out0 ! i)
         \<and> tc_status (toolCalls (out ! i) ! j) = Completed
         \<and> tc_result (toolCalls (out ! i) ! j) = Some (ex t2)"
proof -
  let ?calls = "map (\<lambda>e. toolCalls (snd e))"
  let ?K0 = "\<lambda>v::jsval. False"
  let ?Kref = "\<lambda>v. strict_eq v ref"
  \<comment> \<open>the states of the pass after each part of the input\<close>
  from processedMessages_Inr[OF run0] obtain k0 and es0 :: messageMap where
    runA: "forEachMessage rnd ex (0, []) A = Inr (k0, es0)"
    and out0: "out0 = withShowAvatar (map snd es0)"
    and nth0: "\<And>i. i < length es0 \<Longrightarrow> message (out0 ! i) = message (snd (es0 ! i))
                                  \<and> toolCalls (out0 ! i) = toolCalls (snd (es0 ! i))"
    by blast
  from processedMessages_Inr[OF run] obtain kC and esC :: messageMap where
    runAll: "forEachMessage rnd ex (0, []) (A @ t1 # B @ t2 # C) = Inr (kC, esC)"
    and out: "out = withShowAvatar (map snd esC)"
    and nthC: "\<And>i. i < length esC \<Longrightarrow> message (out ! i) = message (snd (esC ! i))
                                  \<and> toolCalls (out ! i) = toolCalls (snd (esC ! i))"
    by blast
  define es1 where "es1 = foldToolResult ref (ex t1) es0"
  have step1: "processMessage rnd ex (k0, es0) t1 = Inr (k0, es1)"
    using t1 ref by (simp add: processMessage_tool es1_def)
  have runA1: "forEachMessage rnd ex (0, []) (A @ [t1]) = Inr (k0, es1)"
    by (rule forEachMessage_append_Inr_intro[OF runA forEachMessage_single[OF step1]])
  from runAll runA step1 have "forEachMessage rnd ex (k0, es1) (B @ t2 # C) = Inr (kC, esC)"
    by (simp add: forEachMessage_append)
  from forEachMessage_append_Inr[OF this] obtain stB where
    runB: "forEachMessage rnd ex (k0, es1) B = Inr stB"
    and rest: "forEachMessage rnd ex stB (t2 # C) = Inr (kC, esC)"
    by blast
  obtain kB and esB :: messageMap where stB: "stB = (kB, esB)" by (cases stB)
  define es2 where "es2 = foldToolResult ref (ex t2) esB"
  have step2: "processMessage rnd ex (kB, esB) t2 = Inr (kB, es2)"
    using t2 ref by (simp add: processMessage_tool es2_def)
  with rest stB have runC: "forEachMessage rnd ex (kB, es2) C = Inr (kC, esC)"
    by simp
  have runAB: "forEachMessage rnd ex (0, []) ((A @ [t1]) @ B) = Inr (kB, esB)"
    by (rule forEachMessage_append_Inr_intro[OF runA1 runB[unfolded stB]])
  have runAB2:
    "forEachMessage rnd ex (0, []) (((A @ [t1]) @ B) @ [t2]) = Inr (kB, es2)"
    by (rule forEachMessage_append_Inr_intro[OF runAB forEachMessage_single[OF step2]])
  \<comment> \<open>the map only grows\<close>
  have never: "\<forall>v. ?K0 v \<longrightarrow> \<not> strict_eq v ref" by simp
  have g01: "grows ?K0 es0 es1"
    unfolding es1_def by (rule foldToolResult_grows[OF never])
  have nt: "\<not> rendersTurn t1" "\<not> rendersTurn t2"
    using t1 t2 by (simp_all add: rendersTurn_def)
  have distC: "distinct (map msg_id (filter rendersTurn ((((A @ [t1]) @ B) @ [t2]) @ C)))"
    using dist nt by simp
  have "distinct ((map msg_id (filter rendersTurn A) @ map msg_id (filter rendersTurn B))
                    @ map msg_id (filter rendersTurn C))"
    using dist nt by simp
  then have "distinct (map msg_id (filter rendersTurn A) @ map msg_id (filter rendersTurn B))"
    by (rule distinct_append[THEN iffD1, THEN conjunct1])
  then have distB: "distinct (map msg_id (filter rendersTurn ((A @ [t1]) @ B)))"
    using nt by simp
  have g1B: "grows ?K0 es1 esB"
    using runB[unfolded stB]
    by (rule forEachMessage_appended_grows[OF distB runA1]) simp
  have gB2: "grows ?K0 esB es2"
    unfolding es2_def by (rule foldToolResult_grows[OF never])
  have prot: "\<forall>m\<in>set C. msg_type m = ''tool''
                 \<longrightarrow> (\<forall>v. ?Kref v \<longrightarrow> \<not> strict_eq v (tool_call_id m))"
    using tail by (auto dest!: strict_eq_eq)
  have g2C: "grows ?Kref es2 esC"
    by (rule forEachMessage_appended_grows[OF distC runAB2 runC prot])
  have g0B: "grows ?K0 es0 esB"
    by (rule grows_trans[OF g01 g1B])
  have g02: "grows ?K0 es0 es2"
    by (rule grows_trans[OF g0B gB2])
  have g0C: "grows ?K0 es0 esC"
    by (rule grows_trans[OF g02 grows_weaken[OF g2C]])
  \<comment> \<open>the first match stays where it is\<close>
  from fm have fm0: "firstMatch ref (?calls es0) = Some (i, j)"
    by (simp add: out0 calls_withShowAvatar)
  have fm1: "firstMatch ref (?calls es1) = Some (i, j)"
    by (rule firstMatch_grows[OF g01 fm0])
  have fmB: "firstMatch ref (?calls esB) = Some (i, j)"
    by (rule firstMatch_grows[OF g0B fm0])
  have fm2: "firstMatch ref (?calls es2) = Some (i, j)"
    by (rule firstMatch_grows[OF g02 fm0])
  have fmC: "firstMatch ref (?calls esC) = Some (i, j)"
    by (rule firstMatch_grows[OF g0C fm0])
  \<comment> \<open>after the first tool result\<close>
  have i0: "i < length es0"
    by (rule foldToolResult_at(1)[OF fm0])
  have i1: "i < length es1"
    using i0 by (simp add: es1_def length_foldToolResult)
  have call1: "toolCalls (snd (es1 ! i)) ! j
                 = (toolCalls (snd (es0 ! i)) ! j)\<lparr>tc_status := Completed,
                                                   tc_result := Some (ex t1)\<rparr>"
    unfolding es1_def by (rule foldToolResult_at(4)[OF fm0])
  have run1: "processedMessages rnd ex (A @ [t1]) = Inr (withShowAvatar (map snd es1))"
    using runA1 by (simp add: processedMessages_def)
  have o1: "toolCalls (withShowAvatar (map snd es1) ! i) = toolCalls (snd (es1 ! i))"
    using i1 by (simp add: nth_withShowAvatar)
  have part1: "\<exists>out1. processedMessages rnd ex (A @ [t1]) = Inr out1
            \<and> firstMatch ref (map toolCalls out1) = Some (i, j)
            \<and> tc_status (toolCalls (out1 ! i) ! j) = Completed
            \<and> tc_result (toolCalls (out1 ! i) ! j) = Some (ex t1)"
  proof (intro exI conjI)
    show "processedMessages rnd ex (A @ [t1]) = Inr (withShowAvatar (map snd es1))"
      by (rule run1)
    show "firstMatch ref (map toolCalls (withShowAvatar (map snd es1))) = Some (i, j)"
      using fm1 by (simp only: calls_withShowAvatar)
    show "tc_status (toolCalls (withShowAvatar (map snd es1) ! i) ! j) = Completed"
      by (simp only: o1 call1) simp
    show "tc_result (toolCalls (withShowAvatar (map snd es1) ! i) ! j) = Some (ex t1)"
      by (simp only: o1 call1) simp
  qed
  \<comment> \<open>after the second tool result, and at the end\<close>
  have call2: "toolCalls (snd (es2 ! i)) ! j
                 = (toolCalls (snd (esB ! i)) ! j)\<lparr>tc_status := Completed,
                                                   tc_result := Some (ex t2)\<rparr>"
    unfolding es2_def by (rule foldToolResult_at(4)[OF fmB])
  have i2: "i < length es2"
    by (rule foldToolResult_at(1)[OF fm2])
  have j2: "j < length (toolCalls (snd (es2 ! i)))"
    by (rule foldToolResult_at(2)[OF fm2])
  have m2: "strict_eq (tc_id (toolCalls (snd (es2 ! i)) ! j)) ref"
    by (rule foldToolResult_at(5)[OF fm2])
  from grows_call[OF g2C i2 j2]
  have "callStep ?Kref (toolCalls (snd (es2 ! i)) ! j) (toolCalls (snd (esC ! i)) ! j)"
    by simp
  with m2 have callC: "toolCalls (snd (esC ! i)) ! j = toolCalls (snd (es2 ! i)) ! j"
    by (simp add: callStep_def)
  have iC: "i < length esC"
    by (rule foldToolResult_at(1)[OF fmC])
  have j0: "j < length (toolCalls (snd (es0 ! i)))"
    by (rule foldToolResult_at(2)[OF fm0])
  from grows_call[OF g0C i0 j0]
  have msgC: "message (snd (esC ! i)) = message (snd (es0 ! i))"
    by simp
  from nthC[OF iC] have oC: "message (out ! i) = message (snd (esC ! i))"
    "toolCalls (out ! i) = toolCalls (snd (esC ! i))"
    by simp_all
  from nth0[OF i0] have o0: "message (out0 ! i) = message (snd (es0 ! i))"
    by simp
  have p2: "firstMatch ref (map toolCalls out) = Some (i, j)"
    using fmC by (simp only: out calls_withShowAvatar)
  have p3: "message (out ! i) = message (out0 ! i)"
    by (simp only: oC o0 msgC)
  have p4: "tc_status (toolCalls (out ! i) ! j) = Completed"
    by (simp only: oC callC call2) simp
  have p5: "tc_result (toolCalls (out ! i) ! j) = Some (ex t2)"
    by (simp only: oC callC call2) simp
  from part1 p2 p3 p4 p5 show ?thesis
    by (intro conjI)
qed

theorem later_result_overwrites_witness:
  "processedMessages drawsA textOf [msg1, msg2] =
     Inr [\<lparr>message = msg1, toolCalls = [], showAvatar = True\<rparr>,
          \<lparr>message = msg2,
           toolCalls = [\<lparr>tc_id = JStr ''t1'', tc_name = JStr ''search'',
                         tc_args = JObj [(''q'', JStr ''x'')], tc_status = Pending,
                         tc_result = None\<rparr>],
           showAvatar = True\<rparr>]
   \<and> processedMessages drawsA textOf ([msg1, msg2] @ msg3 # [msg6] @ msgAgain # [msg4]) =
     Inr [\<lparr>message = msg1, toolCalls = [], showAvatar = True\<rparr>,
          \<lparr>message = msg2,
           toolCalls = [\<lparr>tc_id = JStr ''t1'', tc_name = JStr ''search'',
                         tc_args = JObj [(''q'', JStr ''x'')], tc_status = Completed,
                         tc_result = Some ''result-y''\<rparr>],
           showAvatar = True\<rparr>,
          \<lparr>message = msg6, toolCalls = [], showAvatar = True\<rparr>]
   \<and> (\<exists>out1. processedMessages drawsA textOf ([msg1, msg2] @ [msg3]) = Inr out1
          \<and> firstMatch (JStr ''t1'') (map toolCalls out1) = Some (1, 0)
          \<and> tc_status (toolCalls (out1 ! 1) ! 0) = Completed
          \<and> tc_result (toolCalls (out1 ! 1) ! 0) = Some ''result-x'')"
proof -
  let ?before = "[\<lparr>message = msg1, toolCalls = [], showAvatar = True\<rparr>,
          \<lparr>message = msg2,
           toolCalls = [\<lparr>tc_id = JStr ''t1'', tc_name = JStr ''search'',
                         tc_args = JObj [(''q'', JStr ''x'')], tc_status = Pending,
                         tc_result = None\<rparr>],
           showAvatar = True\<rparr>]"
  let ?final = "[\<lparr>message = msg1, toolCalls = [], showAvatar = True\<rparr>,
          \<lparr>message = msg2,
           toolCalls = [\<lparr>tc_id = JStr ''t1'', tc_name = JStr ''search'',
                         tc_args = JObj [(''q'', JStr ''x'')], tc_status = Completed,
                         tc_result = Some ''result-y''\<rparr>],
           showAvatar = True\<rparr>,
          \<lparr>message = msg6, toolCalls = [], showAvatar = True\<rparr>]"
  have dist: "distinct (map msg_id (filter rendersTurn
                ([msg1, msg2] @ msg3 # [msg6] @ msgAgain # [msg4])))"
    by (simp add: rendersTurn_def sample_defs)
  have t1: "msg_type msg3 = ''tool''" "tool_call_id msg3 = JStr ''t1''"
    and t2: "msg_type msgAgain = ''tool''" "tool_call_id msgAgain = JStr ''t1''"
    by (simp_all add: sample_defs)
  have ref: "truthy (JStr ''t1'')" by simp
  have tail: "\<forall>m\<in>set [msg4]. msg_type m = ''tool'' \<longrightarrow> tool_call_id m \<noteq> JStr ''t1''"
    by (simp add: sample_defs)
  have run0: "processedMessages drawsA textOf [msg1, msg2] = Inr ?before"
    by (simp add: pass_defs sample_defs)
  have fm: "firstMatch (JStr ''t1'') (map toolCalls ?before) = Some (1, 0)"
    by simp
  have run: "processedMessages drawsA textOf
               ([msg1, msg2] @ msg3 # [msg6] @ msgAgain # [msg4]) = Inr ?final"
    by (simp add: pass_defs sample_defs)
  have ex: "textOf msg3 = ''result-x''"
    by (simp add: sample_defs)
  from later_result_overwrites [OF dist t1 t2 ref tail run0 fm run]
  have "\<exists>out1. processedMessages drawsA textOf ([msg1, msg2] @ [msg3]) = Inr out1
          \<and> firstMatch (JStr ''t1'') (map toolCalls out1) = Some (1, 0)
          \<and> tc_status (toolCalls (out1 ! 1) ! 0) = Completed
          \<and> tc_result (toolCalls (out1 ! 1) ! 0) = Some ''result-x''"
    unfolding ex by (rule conjunct1)
  with run0 run show ?thesis by (intro conjI)
qed

subsection \<open>Inputs outside the stated input domain\<close>

text \<open>
  The specification restricts the inputs of the reconciliation to sequences whose message
  ids are unique, and describes a tool invocation as a record. Two facts show what the
  pass does outside this domain; the properties above that speak about several messages
  carry the corresponding hypotheses. First, an assistant message that arrives again
  under the id of an earlier turn replaces the tool calls of that turn, completed or not,
  by freshly normalised ones.
\<close>

lemma repeated_message_id_replaces_turn:
  "processedMessages drawsA textOf [msg2, msg3, msg2] =
     Inr [\<lparr>message = msg2,
           toolCalls = [\<lparr>tc_id = JStr ''t1'', tc_name = JStr ''search'',
                         tc_args = JObj [(''q'', JStr ''x'')], tc_status = Pending,
                         tc_result = None\<rparr>],
           showAvatar = True\<rparr>]"
  by (simp add: pass_defs sample_defs)

text \<open>
  Second, reading a property of a \<^verbatim>\<open>null\<close> element of a tool-call array throws, and the
  pass has no output.
\<close>

lemma null_tool_call_entry_raises:
  "processedMessages drawsA textOf [msg1, msgNull] = Inl TypeError"
  by (simp add: pass_defs sample_defs)

end
